theory Spec2Isabelle
  imports Complex_Main "HOL-Library.Multiset"
begin

section \<open>Numbers\<close>

text \<open>
  A TypeScript \<open>number\<close> is modelled as a real number or one of the three non-finite
  values. Arithmetic on finite values is exact: rounding is not modelled, and the two
  IEEE zeros are one value (a nonzero finite value divided by zero is an infinity with
  the sign of the numerator). The tables below are those of the language for
  \<open>+\<close>, \<open>-\<close>, \<open>*\<close>, \<open>/\<close>, the comparisons (false as soon as an operand is NaN),
  \<open>Math.max\<close> and \<open>Math.min\<close>.
\<close>

datatype num = Fin real | PInf | NInf | NaN

fun neg :: "num \<Rightarrow> num" where
  "neg (Fin a) = Fin (- a)"
| "neg PInf = NInf"
| "neg NInf = PInf"
| "neg NaN = NaN"

instantiation num :: "{plus, minus, times, inverse, ord}"
begin

fun plus_num :: "num \<Rightarrow> num \<Rightarrow> num" where
  "plus_num NaN _ = NaN"
| "plus_num _ NaN = NaN"
| "plus_num (Fin a) (Fin b) = Fin (a + b)"
| "plus_num PInf NInf = NaN"
| "plus_num NInf PInf = NaN"
| "plus_num PInf _ = PInf"
| "plus_num NInf _ = NInf"
| "plus_num (Fin a) PInf = PInf"
| "plus_num (Fin a) NInf = NInf"

definition minus_num :: "num \<Rightarrow> num \<Rightarrow> num" where
  "minus_num a b = a + neg b"

fun times_num :: "num \<Rightarrow> num \<Rightarrow> num" where
  "times_num NaN _ = NaN"
| "times_num _ NaN = NaN"
| "times_num (Fin a) (Fin b) = Fin (a * b)"
| "times_num PInf PInf = PInf"
| "times_num PInf NInf = NInf"
| "times_num NInf PInf = NInf"
| "times_num NInf NInf = PInf"
| "times_num PInf (Fin b) = (if b = 0 then NaN else if 0 < b then PInf else NInf)"
| "times_num NInf (Fin b) = (if b = 0 then NaN else if 0 < b then NInf else PInf)"
| "times_num (Fin a) PInf = (if a = 0 then NaN else if 0 < a then PInf else NInf)"
| "times_num (Fin a) NInf = (if a = 0 then NaN else if 0 < a then NInf else PInf)"

fun divide_num :: "num \<Rightarrow> num \<Rightarrow> num" where
  "divide_num NaN _ = NaN"
| "divide_num _ NaN = NaN"
| "divide_num (Fin a) (Fin b) =
     (if b \<noteq> 0 then Fin (a / b)
      else if a = 0 then NaN else if 0 < a then PInf else NInf)"
| "divide_num (Fin a) PInf = Fin 0"
| "divide_num (Fin a) NInf = Fin 0"
| "divide_num PInf (Fin b) = (if 0 \<le> b then PInf else NInf)"
| "divide_num NInf (Fin b) = (if 0 \<le> b then NInf else PInf)"
| "divide_num PInf _ = NaN"
| "divide_num NInf _ = NaN"

fun inverse_num :: "num \<Rightarrow> num" where
  "inverse_num (Fin b) = (if b \<noteq> 0 then Fin (1 / b) else PInf)"
| "inverse_num PInf = Fin 0"
| "inverse_num NInf = Fin 0"
| "inverse_num NaN = NaN"

fun less_num :: "num \<Rightarrow> num \<Rightarrow> bool" where
  "less_num NaN _ = False"
| "less_num _ NaN = False"
| "less_num (Fin a) (Fin b) = (a < b)"
| "less_num (Fin a) PInf = True"
| "less_num (Fin a) NInf = False"
| "less_num PInf _ = False"
| "less_num NInf NInf = False"
| "less_num NInf _ = True"

fun less_eq_num :: "num \<Rightarrow> num \<Rightarrow> bool" where
  "less_eq_num NaN _ = False"
| "less_eq_num _ NaN = False"
| "less_eq_num (Fin a) (Fin b) = (a \<le> b)"
| "less_eq_num (Fin a) PInf = True"
| "less_eq_num (Fin a) NInf = False"
| "less_eq_num PInf PInf = True"
| "less_eq_num PInf _ = False"
| "less_eq_num NInf _ = True"

instance ..

end

text \<open>\<open>Math.max(a, b)\<close> and \<open>Math.min(a, b)\<close>: NaN if an argument is NaN.\<close>

definition nmax :: "num \<Rightarrow> num \<Rightarrow> num" where
  "nmax a b = (if a = NaN \<or> b = NaN then NaN else if a < b then b else a)"

definition nmin :: "num \<Rightarrow> num \<Rightarrow> num" where
  "nmin a b = (if a = NaN \<or> b = NaN then NaN else if b < a then b else a)"

section \<open>Animation scheduler (BarChart.ts, Sparkline.ts)\<close>

text \<open>
  The table \<open>EASINGS\<close>. On a finite argument each entry is the source's expression
  over the reals; on a non-finite argument it is what the same expression evaluates to
  (\<open>Math.pow\<close> of an infinity to the power 3 keeps the sign, \<open>Math.exp\<close> of
  \<open>-Infinity\<close> is 0 and \<open>Math.cos\<close> of an infinity is NaN).
\<close>

datatype easing_id = Linear | EaseOut | EaseInOut | Spring

fun EASINGS :: "easing_id \<Rightarrow> num \<Rightarrow> num" where
  "EASINGS Linear t = t"
| "EASINGS EaseOut (Fin t) = Fin (1 - (1 - t) ^ 3)"
| "EASINGS EaseOut t = t"
| "EASINGS EaseInOut (Fin t) =
     Fin (if t < 0.5 then 4 * t * t * t else 1 - (- 2 * t + 2) ^ 3 / 2)"
| "EASINGS EaseInOut t = t"
| "EASINGS Spring (Fin t) = Fin (1 - exp (- 6 * t) * cos (6.5 * t))"
| "EASINGS Spring t = NaN"

record ResolvedAnim =
  enabled :: bool
  duration :: real
  easing :: easing_id
  delay :: real
  style :: string

text \<open>
  \<open>barProgress\<close> of BarChart.ts and \<open>sliceProgress\<close> of Sparkline.ts (the donut
  chart); \<open>elapsed\<close> is a finite time or \<open>Infinity\<close>, which the final redraw passes.
\<close>

definition barProgress :: "ResolvedAnim \<Rightarrow> nat \<Rightarrow> num \<Rightarrow> num" where
  "barProgress anim catIdx elapsed =
     (if \<not> enabled anim \<or> elapsed = PInf then Fin 1
      else let barElapsed = nmax (Fin 0) (elapsed - Fin (delay anim) * Fin (real catIdx));
               raw = nmin (Fin 1) (barElapsed / Fin (duration anim))
           in EASINGS (easing anim) raw)"

definition sliceProgress :: "ResolvedAnim \<Rightarrow> nat \<Rightarrow> num \<Rightarrow> num" where
  "sliceProgress anim sliceIdx elapsed =
     (if \<not> enabled anim \<or> elapsed = PInf then Fin 1
      else let sliceElapsed = nmax (Fin 0) (elapsed - Fin (delay anim) * Fin (real sliceIdx));
               raw = nmin (Fin 1) (sliceElapsed / Fin (duration anim))
           in EASINGS (easing anim) raw)"

text \<open>
  The two values \<open>tick\<close> computes in its frame callback before it redraws:
  \<open>totalTime\<close> from the number of bars and \<open>globalDone\<close> from the elapsed time.
\<close>

definition totalTime :: "ResolvedAnim \<Rightarrow> nat \<Rightarrow> real" where
  "totalTime anim numBars =
     duration anim + delay anim * real_of_int (max 0 (int numBars - 1))"

definition globalDone :: "ResolvedAnim \<Rightarrow> nat \<Rightarrow> num \<Rightarrow> bool" where
  "globalDone anim numBars elapsed = (Fin (totalTime anim numBars) \<le> elapsed)"

section \<open>Treemap layout (Heatmap.ts)\<close>

text \<open>
  A heatmap item; the optional fields \<open>id\<close>, \<open>sublabel\<close> and \<open>group\<close> are never read
  by the layout and are left out. A weight is a finite number.
\<close>

record HeatmapItem =
  label :: string
  weight :: real
  change :: real

record LayoutRect =
  rx :: num
  ry :: num
  rw :: num
  rh :: num
  ritem :: HeatmapItem

text \<open>\<open>row.reduce((s, i) => s + i.weight, 0)\<close>\<close>

definition sumWeight :: "HeatmapItem list \<Rightarrow> real" where
  "sumWeight row = foldl (\<lambda>s i. s + weight i) 0 row"

text \<open>
  The loop of \<open>layoutRow\<close> over the items of the row, with the running \<open>offset\<close> and the
  output array, to which each rectangle is pushed.
\<close>

fun layoutRowLoop ::
  "HeatmapItem list \<Rightarrow> num \<Rightarrow> bool \<Rightarrow> num \<Rightarrow> num \<Rightarrow> num \<Rightarrow> num \<Rightarrow> num \<Rightarrow> num
     \<Rightarrow> LayoutRect list \<Rightarrow> LayoutRect list" where
  "layoutRowLoop [] rowWeight isWide x y w h gap offset out = out"
| "layoutRowLoop (item # rest) rowWeight isWide x y w h gap offset out =
     (let frac = Fin (weight item) / rowWeight;
          g = gap / Fin 2
      in if isWide then
           let rh' = frac * h; rw' = w; rx' = x; ry' = y + offset
           in layoutRowLoop rest rowWeight isWide x y w h gap (offset + rh')
                (out @ [\<lparr>rx = rx' + g, ry = ry' + g, rw = nmax (Fin 0) (rw' - gap),
                         rh = nmax (Fin 0) (rh' - gap), ritem = item\<rparr>])
         else
           let rw' = frac * w; rh' = h; rx' = x + offset; ry' = y
           in layoutRowLoop rest rowWeight isWide x y w h gap (offset + rw')
                (out @ [\<lparr>rx = rx' + g, ry = ry' + g, rw = nmax (Fin 0) (rw' - gap),
                         rh = nmax (Fin 0) (rh' - gap), ritem = item\<rparr>]))"

definition layoutRow ::
  "HeatmapItem list \<Rightarrow> num \<Rightarrow> num \<Rightarrow> num \<Rightarrow> num \<Rightarrow> num \<Rightarrow> LayoutRect list \<Rightarrow> num
     \<Rightarrow> LayoutRect list" where
  "layoutRow row x y w h totalArea out gap =
     (if row = [] then out
      else let rowWeight = Fin (sumWeight row);
               isWide = (w \<ge> h)
           in layoutRowLoop row rowWeight isWide x y w h gap (Fin 0) out)"

definition worst :: "HeatmapItem list \<Rightarrow> num \<Rightarrow> num \<Rightarrow> num \<Rightarrow> num \<Rightarrow> num" where
  "worst row w h area totalArea =
     (let rowWeight = Fin (sumWeight row);
          fraction = rowWeight / totalArea;
          isWide = (w \<ge> h);
          side = (if isWide then fraction * w else fraction * h)
      in if side \<le> Fin 0 then PInf
         else foldl (\<lambda>maxR item.
                let itemFrac = Fin (weight item) / rowWeight;
                    other = (if isWide then itemFrac * h else itemFrac * w);
                    r = nmax (side / other) (other / side)
                in if r > maxR then r else maxR) (Fin 0) row)"

function squarify ::
  "HeatmapItem list \<Rightarrow> HeatmapItem list \<Rightarrow> num \<Rightarrow> num \<Rightarrow> num \<Rightarrow> num \<Rightarrow> num
     \<Rightarrow> LayoutRect list \<Rightarrow> num \<Rightarrow> LayoutRect list" where
  "squarify [] row x y w h totalArea out gap = layoutRow row x y w h totalArea out gap"
| "squarify (c # cs) row x y w h totalArea out gap =
     (if row = [] \<or> worst (row @ [c]) w h (w * h) totalArea \<le> worst row w h (w * h) totalArea
      then squarify cs (row @ [c]) x y w h totalArea out gap
      else let rowWeight = Fin (sumWeight row);
               fraction = rowWeight / totalArea;
               isWide = (w \<ge> h)
           in if isWide then
                let rowW = fraction * w
                in squarify (c # cs) [] (x + rowW) y (w - rowW) h (totalArea - rowWeight)
                     (layoutRow row x y rowW h totalArea out gap) gap
              else
                let rowH = fraction * h
                in squarify (c # cs) [] x (y + rowH) w (h - rowH) (totalArea - rowWeight)
                     (layoutRow row x y w rowH totalArea out gap) gap)"
  by pat_completeness auto
termination
  by (relation "measure (\<lambda>(children, row, x, y, w, h, totalArea, out, gap).
        2 * length children + (if row = [] then 0 else 1))") auto

text \<open>
  \<open>items.slice().sort((a, b) => b.weight - a.weight)\<close> is a stable sort by descending
  weight, here the stable insertion sort on the negated weight.
\<close>

definition layoutTreemap ::
  "HeatmapItem list \<Rightarrow> num \<Rightarrow> num \<Rightarrow> num \<Rightarrow> num \<Rightarrow> num \<Rightarrow> LayoutRect list" where
  "layoutTreemap items x y w h gap =
     (if items = [] then []
      else let sorted = sort_key (\<lambda>i. - weight i) items;
               totalWeight = Fin (sumWeight sorted)
           in if totalWeight \<le> Fin 0 then []
              else squarify sorted [] x y w h totalWeight [] gap)"

text \<open>
  The notions in which the layout properties are stated: the sum of the areas of a list
  of rectangles, and two rectangles overlapping (their interiors meet).
\<close>

fun areaSum :: "LayoutRect list \<Rightarrow> num" where
  "areaSum [] = Fin 0"
| "areaSum (r # rs) = rw r * rh r + areaSum rs"

definition overlap :: "LayoutRect \<Rightarrow> LayoutRect \<Rightarrow> bool" where
  "overlap r s \<longleftrightarrow>
     rx r < rx s + rw s \<and> rx s < rx r + rw r \<and> ry r < ry s + rh s \<and> ry s < ry r + rh r"

text \<open>
  A rectangle lies inside the region with corner \<open>(x, y)\<close>, width \<open>w\<close> and height \<open>h\<close>
  when its coordinates are finite, its sizes are not negative and it does not leave the
  region. A list of rectangles is disjoint when no rectangle overlaps a later one. Two
  rectangles abut when the second starts where the first ends, downwards or to the right,
  and spans the same extent on the other axis.
\<close>

definition inside :: "LayoutRect \<Rightarrow> real \<Rightarrow> real \<Rightarrow> real \<Rightarrow> real \<Rightarrow> bool" where
  "inside r x y w h \<longleftrightarrow>
     Fin 0 \<le> rw r \<and> Fin 0 \<le> rh r \<and> Fin x \<le> rx r \<and> rx r + rw r \<le> Fin (x + w)
     \<and> Fin y \<le> ry r \<and> ry r + rh r \<le> Fin (y + h)"

fun disjointRects :: "LayoutRect list \<Rightarrow> bool" where
  "disjointRects [] = True"
| "disjointRects (r # rs) = ((\<forall>s\<in>set rs. \<not> overlap r s) \<and> disjointRects rs)"

definition abutsBelow :: "LayoutRect \<Rightarrow> LayoutRect \<Rightarrow> bool" where
  "abutsBelow r s \<longleftrightarrow> rx s = rx r \<and> rw s = rw r \<and> ry s = ry r + rh r"

definition abutsRight :: "LayoutRect \<Rightarrow> LayoutRect \<Rightarrow> bool" where
  "abutsRight r s \<longleftrightarrow> ry s = ry r \<and> rh s = rh r \<and> rx s = rx r + rw r"

section \<open>Area chart: stacking (unnamed/part_000)\<close>

text \<open>The values of a series are finite numbers.\<close>

text \<open>\<open>vals[si][i] ?? 0\<close>: a series shorter than the first one has no entry at \<open>i\<close>.\<close>

definition valueOr0 :: "real list \<Rightarrow> nat \<Rightarrow> real" where
  "valueOr0 v i = (if i < length v then v ! i else 0)"

text \<open>\<open>vals[0]?.length ?? 0\<close>\<close>

definition numPoints :: "real list list \<Rightarrow> nat" where
  "numPoints vals = (case vals of [] \<Rightarrow> 0 | v # _ \<Rightarrow> length v)"

text \<open>
  The outer loop of \<open>computeStacked\<close> over the series, with the row computed last
  (\<open>result[si - 1]\<close>; for the first series a row of zeros).
\<close>

fun stackRows :: "nat \<Rightarrow> real list \<Rightarrow> real list list \<Rightarrow> real list list" where
  "stackRows n prev [] = []"
| "stackRows n prev (v # vs) =
     (let row = map (\<lambda>i. prev ! i + valueOr0 v i) [0..<n]
      in row # stackRows n row vs)"

definition computeStacked :: "real list list \<Rightarrow> real list list" where
  "computeStacked vals =
     (let n = numPoints vals
      in stackRows n (replicate n 0) vals)"

definition computeStackedExpanded :: "real list list \<Rightarrow> real list list" where
  "computeStackedExpanded vals =
     (let cumulative = computeStacked vals;
          n = numPoints vals
      in map (\<lambda>si. map (\<lambda>i.
             let total = cumulative ! (length cumulative - 1) ! i
             in if total > 0 then cumulative ! si ! i / total * 100 else 0) [0..<n])
           [0..<length cumulative])"

text \<open>
  The sum of column \<open>i\<close> over the first \<open>k\<close> series, a missing entry counting as 0; over
  all series it is the total of the column.
\<close>

definition columnSum :: "real list list \<Rightarrow> nat \<Rightarrow> nat \<Rightarrow> real" where
  "columnSum vals i k = sum_list (map (\<lambda>v. valueOr0 v i) (take k vals))"

section \<open>Area chart: hover index (unnamed/part_000)\<close>

text \<open>
  What \<open>findHoveredIndex\<close> reads of the chart: the option \<open>showYAxis\<close>, the device
  pixel ratio, the width of the canvas and the number of x labels of the resolved data.
  \<open>mLeft_\<close>, \<open>mRight_\<close>, \<open>plotW_\<close>, \<open>toX_\<close> and \<open>slotW\<close> are its local values.

  The function compares computed distances, so the rounding of its arithmetic decides
  which of two nearly equal distances is the smaller, and here it is modelled. The
  rounding of a real result to a number of the program is the parameter \<open>fl\<close> of the
  model: it is applied to the result of every product, quotient, sum and difference of
  the source and to the literal \<open>0.6\<close>; the indices and \<open>n - 1\<close> are integers and
  \<open>Math.abs\<close> is exact. With the identity for \<open>fl\<close> the arithmetic is exact; with
  \<open>fl64\<close> it is the arithmetic of the program.
\<close>

text \<open>
  The numbers of the program are IEEE 754 doubles, and its arithmetic rounds every result
  to the nearest double, a tie to the one with the even significand. \<open>fl64\<close> is this
  rounding for the reals whose magnitude is in the range of the normal doubles (neither
  overflow nor subnormal numbers): \<open>binade\<close> finds the exponent \<open>e\<close> with
  \<open>2^e \<le> |v| < 2^(e + 1)\<close> in at most \<open>fuel\<close> halvings or doublings, and the result is
  the multiple of \<open>2^(e - 52)\<close> nearest to \<open>v\<close>.
\<close>

primrec binade :: "nat \<Rightarrow> real \<Rightarrow> int \<Rightarrow> int" where
  "binade 0 a e = e"
| "binade (Suc fuel) a e =
     (if 2 \<le> a then binade fuel (a / 2) (e + 1)
      else if a < 1 then binade fuel (a * 2) (e - 1)
      else e)"

definition pow2 :: "int \<Rightarrow> real" where
  "pow2 e = (if 0 \<le> e then 2 ^ nat e else 1 / 2 ^ nat (- e))"

definition roundHalfEven :: "real \<Rightarrow> int" where
  "roundHalfEven v =
     (let f = \<lfloor>v\<rfloor>; r = v - real_of_int f
      in if r < 1 / 2 then f else if 1 / 2 < r then f + 1
         else if even f then f else f + 1)"

definition fl64 :: "real \<Rightarrow> real" where
  "fl64 v =
     (if v = 0 then 0
      else let u = pow2 (binade 2100 \<bar>v\<bar> 0 - 52)
           in real_of_int (roundHalfEven (v / u)) * u)"

record AreaChart =
  showYAxis :: bool
  dpr :: real
  canvasWidth :: real
  numLabels :: nat

definition mLeft :: "(real \<Rightarrow> real) \<Rightarrow> AreaChart \<Rightarrow> real" where
  "mLeft fl c = (if showYAxis c then fl (50 * dpr c) else fl (16 * dpr c))"

definition mRight :: "(real \<Rightarrow> real) \<Rightarrow> AreaChart \<Rightarrow> real" where
  "mRight fl c = fl (16 * dpr c)"

definition plotW :: "(real \<Rightarrow> real) \<Rightarrow> AreaChart \<Rightarrow> real" where
  "plotW fl c = fl (fl (canvasWidth c - mLeft fl c) - mRight fl c)"

definition toX :: "(real \<Rightarrow> real) \<Rightarrow> AreaChart \<Rightarrow> nat \<Rightarrow> real" where
  "toX fl c i =
     fl (mLeft fl c
         + fl (fl (real i / real_of_int (max (int (numLabels c) - 1) 1)) * plotW fl c))"

definition slotW :: "(real \<Rightarrow> real) \<Rightarrow> AreaChart \<Rightarrow> real" where
  "slotW fl c =
     (if numLabels c > 1 then fl (plotW fl c / real_of_int (int (numLabels c) - 1))
      else plotW fl c)"

text \<open>
  One iteration of the loop of \<open>findHoveredIndex\<close> on the pair of \<open>closestIdx\<close> and
  \<open>closestDist\<close>, which starts as \<open>(-1, Infinity)\<close>.
\<close>

definition hoverStep ::
  "(real \<Rightarrow> real) \<Rightarrow> AreaChart \<Rightarrow> real \<Rightarrow> int \<times> num \<Rightarrow> nat \<Rightarrow> int \<times> num" where
  "hoverStep fl c mx st i =
     (let closestIdx = fst st; closestDist = snd st;
          dist = \<bar>fl (fl (mx * dpr c) - toX fl c i)\<bar>
      in if Fin dist < closestDist \<and> dist < fl (slotW fl c * fl 0.6)
         then (int i, Fin dist) else (closestIdx, closestDist))"

definition findHoveredIndex :: "(real \<Rightarrow> real) \<Rightarrow> AreaChart \<Rightarrow> real \<Rightarrow> int" where
  "findHoveredIndex fl c mx =
     (if numLabels c = 0 then - 1
      else fst (foldl (hoverStep fl c mx) (- 1, PInf) [0..<numLabels c]))"

text \<open>
  The distance of the pointer, in device pixels, from data point \<open>i\<close> and the bound
  \<open>slotW * 0.6\<close> it is compared with, both as the program computes them.
\<close>

definition pointDist :: "(real \<Rightarrow> real) \<Rightarrow> AreaChart \<Rightarrow> real \<Rightarrow> nat \<Rightarrow> real" where
  "pointDist fl c mx i = \<bar>fl (fl (mx * dpr c) - toX fl c i)\<bar>"

definition hoverLimit :: "(real \<Rightarrow> real) \<Rightarrow> AreaChart \<Rightarrow> real" where
  "hoverLimit fl c = fl (slotW fl c * fl 0.6)"

section \<open>Theme resolver (Heatmap.ts)\<close>

text \<open>
  Strings are lists of ASCII characters. \<open>s.startsWith(c)\<close> for a one-character string,
  \<open>s.substring(a, b)\<close> for \<open>a \<le> b\<close>, and \<open>s.replace('#', '')\<close>, which removes
  the first \<open>#\<close>, is \<open>remove1\<close>.
\<close>

definition startsWith :: "string \<Rightarrow> char \<Rightarrow> bool" where
  "startsWith s c = (case s of [] \<Rightarrow> False | d # _ \<Rightarrow> d = c)"

definition substring :: "string \<Rightarrow> nat \<Rightarrow> nat \<Rightarrow> string" where
  "substring s a b = take (b - a) (drop a s)"

text \<open>
  \<open>parseInt(s, 16)\<close>: leading white space is skipped, then an optional sign and an optional
  prefix \<open>0x\<close> or \<open>0X\<close>; the value is that of the longest run of hexadecimal digits that
  follows, and \<open>NaN\<close> (here \<open>None\<close>) if there is none. White space is the ASCII one.
\<close>

definition isWhite :: "char \<Rightarrow> bool" where
  "isWhite c \<longleftrightarrow> c \<in> set [CHR 0x20, CHR 0x09, CHR 0x0A, CHR 0x0B, CHR 0x0C, CHR 0x0D]"

definition hexDigit :: "char \<Rightarrow> nat option" where
  "hexDigit c =
     (let n = (of_char c :: nat)
      in if 48 \<le> n \<and> n \<le> 57 then Some (n - 48)
         else if 97 \<le> n \<and> n \<le> 102 then Some (n - 87)
         else if 65 \<le> n \<and> n \<le> 70 then Some (n - 55)
         else None)"

definition parseInt16 :: "string \<Rightarrow> int option" where
  "parseInt16 s =
     (let s1 = dropWhile isWhite s;
          sign = (if startsWith s1 (CHR ''-'') then - 1 else 1 :: int);
          s2 = (if startsWith s1 (CHR ''-'') \<or> startsWith s1 (CHR ''+'') then tl s1 else s1);
          s3 = (if take 2 s2 = ''0x'' \<or> take 2 s2 = ''0X'' then drop 2 s2 else s2);
          digits = takeWhile (\<lambda>c. hexDigit c \<noteq> None) s3
      in if digits = [] then None
         else Some (sign * int (foldl (\<lambda>acc c. 16 * acc + the (hexDigit c)) 0 digits)))"

text \<open>\<open>v || 0\<close> for the result of \<open>parseInt\<close>\<close>

definition orZero :: "int option \<Rightarrow> int" where
  "orZero v = (case v of None \<Rightarrow> 0 | Some n \<Rightarrow> n)"

definition hexLuminance :: "string \<Rightarrow> bool" where
  "hexLuminance bg =
     (if startsWith bg (CHR ''#'') then
        let hex = remove1 (CHR ''#'') bg;
            r = orZero (parseInt16 (substring hex 0 2));
            g = orZero (parseInt16 (substring hex 2 4));
            b = orZero (parseInt16 (substring hex 4 6))
        in real_of_int (r * 299 + g * 587 + b * 114) / 1000 > 150
      else False)"

text \<open>
  The regular expression \<open>/rgba?\(\s*(\d+),\s*(\d+),\s*(\d+)/\<close> of \<open>parseLuminance\<close>:
  \<open>matchHere\<close> matches it at the start of a string and \<open>matchRgb\<close> at the leftmost
  position where it matches, as \<open>color.match\<close> does; the result is the three groups as
  numbers (\<open>+m[1]\<close>, \<open>+m[2]\<close>, \<open>+m[3]\<close>). Every quantifier of the expression is
  followed by a character outside its class, so the greedy match is the only one.
\<close>

definition isDigit :: "char \<Rightarrow> bool" where
  "isDigit c \<longleftrightarrow> 48 \<le> (of_char c :: nat) \<and> (of_char c :: nat) \<le> 57"

definition decimal :: "string \<Rightarrow> nat" where
  "decimal ds = foldl (\<lambda>acc c. 10 * acc + (of_char c - 48)) 0 ds"

definition matchHere :: "string \<Rightarrow> (nat \<times> nat \<times> nat) option" where
  "matchHere s =
     (if take 3 s \<noteq> ''rgb'' then None
      else let s1 = drop 3 s;
               s2 = (if startsWith s1 (CHR ''a'') then tl s1 else s1)
           in if \<not> startsWith s2 (CHR ''('') then None
              else let s3 = dropWhile isWhite (tl s2);
                       d1 = takeWhile isDigit s3;
                       s4 = dropWhile isDigit s3
                   in if d1 = [] \<or> \<not> startsWith s4 (CHR '','') then None
                      else let s5 = dropWhile isWhite (tl s4);
                               d2 = takeWhile isDigit s5;
                               s6 = dropWhile isDigit s5
                           in if d2 = [] \<or> \<not> startsWith s6 (CHR '','') then None
                              else let s7 = dropWhile isWhite (tl s6);
                                       d3 = takeWhile isDigit s7
                                   in if d3 = [] then None
                                      else Some (decimal d1, decimal d2, decimal d3))"

fun matchRgb :: "string \<Rightarrow> (nat \<times> nat \<times> nat) option" where
  "matchRgb [] = matchHere []"
| "matchRgb (c # s) = (case matchHere (c # s) of Some m \<Rightarrow> Some m | None \<Rightarrow> matchRgb s)"

definition parseLuminance :: "string \<Rightarrow> bool" where
  "parseLuminance color =
     (if startsWith color (CHR ''#'') then hexLuminance color
      else case matchRgb color of
             Some (r, g, b) \<Rightarrow> real (r * 299 + g * 587 + b * 114) / 1000 > 150
           | None \<Rightarrow> False)"

text \<open>
  The loop of \<open>isLightBg\<close> over the element and its ancestors; the list holds the computed
  \<open>backgroundColor\<close> of each, the element first.
\<close>

fun ambientWalk :: "string list \<Rightarrow> bool" where
  "ambientWalk [] = False"
| "ambientWalk (c # parents) =
     (if c \<noteq> [] \<and> c \<noteq> ''transparent'' \<and> c \<noteq> ''rgba(0, 0, 0, 0)'' then parseLuminance c
      else ambientWalk parents)"

text \<open>
  \<open>isLightBg(bg, el)\<close>; \<open>el\<close> is \<open>None\<close> when no element is passed and otherwise the computed
  background colours of the element and its ancestors.
\<close>

definition isLightBg :: "string \<Rightarrow> string list option \<Rightarrow> bool" where
  "isLightBg bg el =
     (case el of
        Some chain \<Rightarrow> if bg = ''transparent'' then ambientWalk chain else hexLuminance bg
      | None \<Rightarrow> hexLuminance bg)"

section \<open>Donut chart: hit test (Sparkline.ts)\<close>


text \<open>
  An entry \<open>{start, end}\<close> of \<open>sliceAngles\<close>, and what \<open>hitTest\<close> reads of the state of
  the donut chart: the centre and the radii of the ring, the device pixel ratio \<open>dpr\<close>
  and the slice angles of the last draw.
\<close>

record SliceAngle =
  sliceStart :: real
  sliceEnd :: real





text \<open>
  The block of the draw function that computes the slice angles from the values of the
  data and their total, starting at \<open>-\<pi>/2\<close>; it runs when the data is not empty and the
  total is positive.
\<close>

fun sliceAnglesFrom :: "real \<Rightarrow> real \<Rightarrow> real list \<Rightarrow> SliceAngle list" where
  "sliceAnglesFrom angle totalValue [] = []"
| "sliceAnglesFrom angle totalValue (v # vs) =
     (let sweep = v / totalValue * pi * 2
      in \<lparr>sliceStart = angle, sliceEnd = angle + sweep\<rparr>
         # sliceAnglesFrom (angle + sweep) totalValue vs)"



section \<open>Properties of the animation scheduler\<close>

lemma nmax_Fin: "nmax (Fin a) (Fin b) = Fin (max a b)"
  by (simp add: nmax_def max_def)

lemma nmin_Fin: "nmin (Fin a) (Fin b) = Fin (min a b)"
  by (simp add: nmin_def min_def)

lemma minus_Fin: "Fin a - Fin b = Fin (a - b)"
  by (simp add: minus_num_def)

lemma raw_clamp:
  fixes d :: real
  assumes "0 < d"
  shows "min 1 (max 0 a / d) = min 1 (max 0 (a / d))"
proof (cases "0 \<le> a")
  case True
  then have "0 \<le> a / d" using assms by simp
  with True show ?thesis by (simp add: max_def)
next
  case False
  then have "a / d < 0" using assms by (simp add: divide_neg_pos)
  with False show ?thesis by (simp add: max_def)
qed

lemma EASINGS_zero: "EASINGS e (Fin 0) = Fin 0"
  by (cases e) simp_all

lemma barProgress_finite:
  assumes "enabled anim" and "duration anim \<noteq> 0"
  shows "barProgress anim i (Fin e) =
         EASINGS (easing anim) (Fin (min 1 (max 0 (e - delay anim * real i) / duration anim)))"
  using assms by (simp add: barProgress_def minus_Fin nmax_Fin nmin_Fin Let_def)

lemma sliceProgress_finite:
  assumes "enabled anim" and "duration anim \<noteq> 0"
  shows "sliceProgress anim i (Fin e) =
         EASINGS (easing anim) (Fin (min 1 (max 0 (e - delay anim * real i) / duration anim)))"
  using assms by (simp add: sliceProgress_def minus_Fin nmax_Fin nmin_Fin Let_def)

text \<open>
  C4. For an enabled animation with a positive duration, an item index \<open>i\<close> and a finite
  elapsed time \<open>e\<close>, the progress of the bar chart and of the donut chart is the easing
  applied to \<open>(e - delay * i) / duration\<close> clamped to the interval from 0 to 1; an item
  whose offset \<open>delay * i\<close> has not elapsed reports the easing at 0, which is 0.
\<close>

theorem progress_formula:
  assumes "enabled anim" and "0 < duration anim"
  shows "barProgress anim i (Fin e) =
           EASINGS (easing anim) (Fin (min 1 (max 0 ((e - delay anim * real i) / duration anim))))
       \<and> sliceProgress anim i (Fin e) =
           EASINGS (easing anim) (Fin (min 1 (max 0 ((e - delay anim * real i) / duration anim))))
       \<and> (e \<le> delay anim * real i \<longrightarrow>
            barProgress anim i (Fin e) = EASINGS (easing anim) (Fin 0)
          \<and> barProgress anim i (Fin e) = Fin 0
          \<and> sliceProgress anim i (Fin e) = Fin 0)"
proof -
  have nz: "duration anim \<noteq> 0" using assms(2) by simp
  have b: "barProgress anim i (Fin e) =
           EASINGS (easing anim) (Fin (min 1 (max 0 ((e - delay anim * real i) / duration anim))))"
    using barProgress_finite [OF assms(1) nz] raw_clamp [OF assms(2)] by simp
  have s: "sliceProgress anim i (Fin e) =
           EASINGS (easing anim) (Fin (min 1 (max 0 ((e - delay anim * real i) / duration anim))))"
    using sliceProgress_finite [OF assms(1) nz] raw_clamp [OF assms(2)] by simp
  have z: "min 1 (max 0 ((e - delay anim * real i) / duration anim)) = 0"
    if "e \<le> delay anim * real i"
  proof -
    from that have "e - delay anim * real i \<le> 0" by simp
    then have "(e - delay anim * real i) / duration anim \<le> 0"
      using assms(2) by (simp add: divide_le_0_iff)
    then show ?thesis by (simp add: max_def)
  qed
  show ?thesis using b s z by (simp add: EASINGS_zero)
qed

theorem progress_formula_witness:
  "barProgress \<lparr>enabled = True, duration = 600, easing = EaseOut, delay = 30, style = ''grow''\<rparr>
     2 (Fin 360) = Fin (7 / 8)
 \<and> barProgress \<lparr>enabled = True, duration = 600, easing = EaseOut, delay = 30, style = ''grow''\<rparr>
     2 (Fin 45) = Fin 0"
  using progress_formula [where anim = "\<lparr>enabled = True, duration = 600, easing = EaseOut,
      delay = 30, style = ''grow''\<rparr>" and i = 2 and e = 360]
    progress_formula [where anim = "\<lparr>enabled = True, duration = 600, easing = EaseOut,
      delay = 30, style = ''grow''\<rparr>" and i = 2 and e = 45]
  by (simp add: power3_eq_cube)

lemma totalTime_pos: "1 \<le> n \<Longrightarrow> totalTime anim n = duration anim + delay anim * real (n - 1)"
  by (simp add: totalTime_def max_def of_nat_diff)

text \<open>
  C6. For a run of \<open>n \<ge> 1\<close> items with a positive duration and a stagger delay that is
  not negative, the completion test of \<open>tick\<close>, \<open>elapsed \<ge> duration + delay * (n - 1)\<close>,
  holds exactly when the unclamped progress argument \<open>(elapsed - delay * i) / duration\<close>
  of every item \<open>i < n\<close> is at least 1.
\<close>

theorem global_completion:
  assumes "1 \<le> n" and "0 < duration anim" and "0 \<le> delay anim"
  shows "globalDone anim n (Fin e)
         \<longleftrightarrow> (\<forall>i<n. 1 \<le> (e - delay anim * real i) / duration anim)"
proof
  assume gd: "globalDone anim n (Fin e)"
  show "\<forall>i<n. 1 \<le> (e - delay anim * real i) / duration anim"
  proof (intro allI impI)
    fix i assume "i < n"
    then have "real i \<le> real (n - 1)" by simp
    then have "delay anim * real i \<le> delay anim * real (n - 1)"
      using assms(3) by (rule mult_left_mono)
    moreover have "duration anim + delay anim * real (n - 1) \<le> e"
      using gd assms(1) by (simp add: globalDone_def totalTime_pos)
    ultimately have "duration anim \<le> e - delay anim * real i" by simp
    then show "1 \<le> (e - delay anim * real i) / duration anim"
      using assms(2) by (simp add: le_divide_eq)
  qed
next
  assume all: "\<forall>i<n. 1 \<le> (e - delay anim * real i) / duration anim"
  have "n - 1 < n" using assms(1) by simp
  with all have "1 \<le> (e - delay anim * real (n - 1)) / duration anim" by blast
  then have "duration anim \<le> e - delay anim * real (n - 1)"
    using assms(2) by (simp add: le_divide_eq)
  then show "globalDone anim n (Fin e)"
    using assms(1) by (simp add: globalDone_def totalTime_pos)
qed

theorem global_completion_witness:
  "globalDone \<lparr>enabled = True, duration = 600, easing = EaseOut, delay = 30, style = ''grow''\<rparr>
     3 (Fin 660)
   \<and> (1::real) \<le> (660 - 30 * real 2) / 600"
proof -
  let ?a = "\<lparr>enabled = True, duration = 600, easing = EaseOut, delay = 30, style = ''grow''\<rparr>"
  have gd: "globalDone ?a 3 (Fin 660)" by (simp add: globalDone_def totalTime_def)
  have "globalDone ?a 3 (Fin 660)
      \<longleftrightarrow> (\<forall>i<3. 1 \<le> (660 - delay ?a * real i) / duration ?a)"
    by (rule global_completion) simp_all
  with gd have "\<forall>i<3. 1 \<le> (660 - delay ?a * real i) / duration ?a" by blast
  then have "1 \<le> (660 - delay ?a * real 2) / duration ?a" by simp
  with gd show ?thesis by simp
qed

lemma pi_ge_three: "3 \<le> pi"
proof -
  have "sin (pi / 6) \<le> pi / 6" by (rule sin_x_le_x) simp
  then show ?thesis by (simp add: sin_30)
qed

lemma cos_13_2_pos: "0 < cos (13 / 2 :: real)"
proof -
  have "cos (13 / 2 - 2 * pi + 2 * pi) = cos (13 / 2 - 2 * pi)"
    by (rule cos_periodic)
  then have eq: "cos (13 / 2 :: real) = cos (13 / 2 - 2 * pi)" by simp
  have "- (pi / 2) < 13 / 2 - 2 * pi" using pi_less_4 by simp
  moreover have "13 / 2 - 2 * pi < pi / 2" using pi_ge_three by simp
  ultimately have "0 < cos (13 / 2 - 2 * pi)" by (rule cos_gt_zero_pi)
  with eq show ?thesis by simp
qed

lemma spring_one: "EASINGS Spring (Fin 1) = Fin (1 - exp (- 6) * cos (13 / 2))"
  by simp

lemma spring_one_less: "1 - exp (- 6) * cos (13 / 2 :: real) < 1"
  using cos_13_2_pos by simp

lemma EASINGS_one: "e \<noteq> Spring \<Longrightarrow> EASINGS e (Fin 1) = Fin 1"
  by (cases e) simp_all

lemma barProgress_late:
  assumes "enabled anim" and "0 < duration anim"
    and "duration anim + delay anim * real i \<le> e"
  shows "barProgress anim i (Fin e) = EASINGS (easing anim) (Fin 1)"
proof -
  have "duration anim \<le> e - delay anim * real i" using assms(3) by simp
  then have "1 \<le> max 0 (e - delay anim * real i) / duration anim"
    using assms(2) by (simp add: le_divide_eq max_def)
  then have "min 1 (max 0 (e - delay anim * real i) / duration anim) = 1" by simp
  moreover have "duration anim \<noteq> 0" using assms(2) by simp
  ultimately show ?thesis using barProgress_finite [OF assms(1)] by simp
qed

text \<open>
  C5, as stated, fails for the spring easing: a single bar (total duration 600) at the
  finite elapsed time 600 reports \<open>1 - exp (-6) * cos 6.5\<close>, which is below 1.
\<close>

theorem boundary_spring_counterexample:
  "globalDone \<lparr>enabled = True, duration = 600, easing = Spring, delay = 30, style = ''grow''\<rparr>
     1 (Fin 600)
   \<and> barProgress \<lparr>enabled = True, duration = 600, easing = Spring, delay = 30, style = ''grow''\<rparr>
       0 (Fin 600) \<noteq> Fin 1"
proof -
  have "barProgress \<lparr>enabled = True, duration = 600, easing = Spring, delay = 30,
      style = ''grow''\<rparr> 0 (Fin 600) = Fin (1 - exp (- 6) * cos (13 / 2))"
    by (simp add: barProgress_def minus_Fin nmax_Fin nmin_Fin)
  moreover have "cos (13 / 2 :: real) \<noteq> 0" using cos_13_2_pos by simp
  ultimately show ?thesis
    by (simp add: globalDone_def totalTime_def)
qed

text \<open>
  C5, amended. For an enabled animation with a positive duration and a delay that is not
  negative: every item reports 0 at elapsed time 0; at a finite elapsed time at or
  beyond the total duration of a run of \<open>n\<close> items, item \<open>i < n\<close> reports the easing at 1,
  which is exactly 1 for linear, easeOut and easeInOut and is \<open>1 - exp (-6) * cos 6.5 < 1\<close>
  for spring; at the elapsed time \<open>Infinity\<close>, which the final redraw of a completed run
  passes, every item reports exactly 1 for every easing.
\<close>

theorem boundary_values:
  assumes "enabled anim" and "0 < duration anim" and "0 \<le> delay anim"
  shows "barProgress anim i (Fin 0) = Fin 0
       \<and> (\<forall>n e. i < n \<and> globalDone anim n (Fin e) \<longrightarrow>
            barProgress anim i (Fin e) =
              (if easing anim = Spring then Fin (1 - exp (- 6) * cos (13 / 2)) else Fin 1))
       \<and> 1 - exp (- 6) * cos (13 / 2 :: real) < 1
       \<and> barProgress anim i PInf = Fin 1"
proof -
  have nz: "duration anim \<noteq> 0" using assms(2) by simp
  have "0 \<le> delay anim * real i" using assms(3) by simp
  then have "max 0 (0 - delay anim * real i) = 0" by simp
  then have zero: "barProgress anim i (Fin 0) = Fin 0"
    using barProgress_finite [OF assms(1) nz, of i 0] by (simp add: EASINGS_zero)
  have late: "barProgress anim i (Fin e) =
      (if easing anim = Spring then Fin (1 - exp (- 6) * cos (13 / 2)) else Fin 1)"
    if "i < n" and "globalDone anim n (Fin e)" for n e
  proof -
    from that(1) have n1: "1 \<le> n" and "real i \<le> real (n - 1)" by simp_all
    then have "delay anim * real i \<le> delay anim * real (n - 1)"
      using assms(3) by (simp add: mult_left_mono)
    moreover have "duration anim + delay anim * real (n - 1) \<le> e"
      using that(2) n1 by (simp add: globalDone_def totalTime_pos)
    ultimately have "duration anim + delay anim * real i \<le> e" by simp
    then have "barProgress anim i (Fin e) = EASINGS (easing anim) (Fin 1)"
      by (rule barProgress_late [OF assms(1,2)])
    then show ?thesis using EASINGS_one [of "easing anim"] spring_one by simp
  qed
  have inf: "barProgress anim i PInf = Fin 1" by (simp add: barProgress_def)
  from late have late': "\<forall>n e. i < n \<and> globalDone anim n (Fin e) \<longrightarrow>
      barProgress anim i (Fin e) =
        (if easing anim = Spring then Fin (1 - exp (- 6) * cos (13 / 2)) else Fin 1)"
    by blast
  from zero late' spring_one_less inf show ?thesis by (intro conjI)
qed

theorem boundary_values_witness:
  "barProgress \<lparr>enabled = True, duration = 600, easing = EaseInOut, delay = 30, style = ''grow''\<rparr>
     1 (Fin 0) = Fin 0
 \<and> barProgress \<lparr>enabled = True, duration = 600, easing = EaseInOut, delay = 30, style = ''grow''\<rparr>
     1 (Fin 700) = Fin 1
 \<and> barProgress \<lparr>enabled = True, duration = 600, easing = EaseInOut, delay = 30, style = ''grow''\<rparr>
     1 PInf = Fin 1"
proof -
  let ?a = "\<lparr>enabled = True, duration = 600, easing = EaseInOut, delay = 30,
      style = ''grow''\<rparr>"
  have gd: "(1::nat) < 3 \<and> globalDone ?a 3 (Fin 700)"
    by (simp add: globalDone_def totalTime_def)
  have bv: "barProgress ?a 1 (Fin 0) = Fin 0
       \<and> (\<forall>n e. 1 < n \<and> globalDone ?a n (Fin e) \<longrightarrow>
            barProgress ?a 1 (Fin e) =
              (if easing ?a = Spring then Fin (1 - exp (- 6) * cos (13 / 2)) else Fin 1))
       \<and> 1 - exp (- 6) * cos (13 / 2 :: real) < 1
       \<and> barProgress ?a 1 PInf = Fin 1"
    by (rule boundary_values) simp_all
  from bv have "barProgress ?a 1 (Fin 700) =
      (if easing ?a = Spring then Fin (1 - exp (- 6) * cos (13 / 2)) else Fin 1)"
    using gd by blast
  then have "barProgress ?a 1 (Fin 700) = Fin 1" by simp
  with bv show ?thesis by blast
qed


section \<open>Properties of the treemap layout\<close>

lemma sumWeight_sum_list: "sumWeight row = sum_list (map weight row)"
proof -
  have "foldl (\<lambda>s i. s + weight i) a row = a + sum_list (map weight row)" for a
    by (induction row arbitrary: a) simp_all
  then show ?thesis by (simp add: sumWeight_def)
qed

lemma sumWeight_simps [simp]:
  "sumWeight [] = 0" "sumWeight (i # row) = weight i + sumWeight row"
  "sumWeight (row @ row') = sumWeight row + sumWeight row'"
  by (simp_all add: sumWeight_sum_list)

lemma sumWeight_sort: "sumWeight (sort_key f items) = sumWeight items"
proof -
  have "sum_mset (image_mset weight (mset (sort_key f items)))
      = sum_mset (image_mset weight (mset items))" by simp
  then show ?thesis unfolding sumWeight_sum_list
    by (metis mset_map sum_mset_sum_list)
qed

lemma layoutRowLoop_append:
  "layoutRowLoop row R b x y w h gap off (out1 @ out2)
   = out1 @ layoutRowLoop row R b x y w h gap off out2"
  by (induction row arbitrary: off out2 b) (simp_all add: Let_def)

lemma layoutRow_append:
  "layoutRow row x y w h t (out1 @ out2) gap = out1 @ layoutRow row x y w h t out2 gap"
  by (simp add: layoutRow_def Let_def layoutRowLoop_append)

lemma items_layoutRowLoop:
  "map ritem (layoutRowLoop row R b x y w h gap off out) = map ritem out @ row"
  by (induction row arbitrary: off out b) (simp_all add: Let_def)

lemma items_layoutRow: "map ritem (layoutRow row x y w h t out gap) = map ritem out @ row"
  by (simp add: layoutRow_def Let_def items_layoutRowLoop)

lemma squarify_Cons:
  "squarify (c # cs) row x y w h t out gap =
     (if row = [] \<or> worst (row @ [c]) w h (w * h) t \<le> worst row w h (w * h) t
      then squarify cs (row @ [c]) x y w h t out gap
      else if w \<ge> h
      then squarify cs [c] (x + Fin (sumWeight row) / t * w) y (w - Fin (sumWeight row) / t * w) h
             (t - Fin (sumWeight row))
             (layoutRow row x y (Fin (sumWeight row) / t * w) h t out gap) gap
      else squarify cs [c] x (y + Fin (sumWeight row) / t * h) w (h - Fin (sumWeight row) / t * h)
             (t - Fin (sumWeight row))
             (layoutRow row x y w (Fin (sumWeight row) / t * h) t out gap) gap)"
  by (simp add: Let_def)

declare squarify.simps(2) [simp del]

lemma squarify_append:
  "squarify cs row x y w h t (out1 @ out2) gap = out1 @ squarify cs row x y w h t out2 gap"
  by (induction cs arbitrary: row x y w h t out2)
     (simp_all add: squarify_Cons layoutRow_append)

lemma items_squarify:
  "map ritem (squarify cs row x y w h t out gap) = map ritem out @ row @ cs"
  by (induction cs arbitrary: row x y w h t out)
     (simp_all add: squarify_Cons items_layoutRow)

lemma layoutTreemap_items:
  "0 < sumWeight items \<Longrightarrow>
   map ritem (layoutTreemap items x y w h gap) = sort_key (\<lambda>i. - weight i) items"
  by (auto simp add: layoutTreemap_def Let_def sumWeight_sort items_squarify)


lemma inside_iff:
  "inside r x y w h \<longleftrightarrow>
     (\<exists>a b c d. rx r = Fin a \<and> ry r = Fin b \<and> rw r = Fin c \<and> rh r = Fin d
        \<and> 0 \<le> c \<and> 0 \<le> d \<and> x \<le> a \<and> a + c \<le> x + w \<and> y \<le> b \<and> b + d \<le> y + h)"
  by (cases "rx r"; cases "ry r"; cases "rw r"; cases "rh r") (auto simp add: inside_def)

lemma inside_mono:
  assumes "inside r x' y' w' h'" and "x \<le> x'" and "x' + w' \<le> x + w" and "y \<le> y'"
    and "y' + h' \<le> y + h"
  shows "inside r x y w h"
  using assms unfolding inside_iff by force

lemma separated_x:
  assumes "inside r x y w h" and "inside s x' y' w' h'" and "x + w \<le> x'"
  shows "\<not> overlap r s"
  using assms unfolding inside_iff overlap_def by force

lemma separated_y:
  assumes "inside r x y w h" and "inside s x' y' w' h'" and "y + h \<le> y'"
  shows "\<not> overlap r s"
  using assms unfolding inside_iff overlap_def by force

lemma disjointRects_append:
  "disjointRects (rs @ ss) \<longleftrightarrow>
     disjointRects rs \<and> disjointRects ss \<and> (\<forall>r\<in>set rs. \<forall>s\<in>set ss. \<not> overlap r s)"
  by (induction rs) auto

lemma areaSum_append:
  "areaSum rs = Fin p \<Longrightarrow> areaSum ss = Fin q \<Longrightarrow> areaSum (rs @ ss) = Fin (p + q)"
proof (induction rs arbitrary: p)
  case Nil
  then show ?case by simp
next
  case (Cons r rs)
  from Cons.prems(1) obtain u v where u: "rw r * rh r = Fin u" and v: "areaSum rs = Fin v"
    and p: "p = u + v"
    by (cases "rw r * rh r"; cases "areaSum rs") auto
  from Cons.IH [OF v Cons.prems(2)] u p show ?case by simp
qed

lemma sumWeight_nonneg: "\<forall>i\<in>set row. 0 < weight i \<Longrightarrow> 0 \<le> sumWeight row"
  by (induction row) (simp_all add: add_nonneg_nonneg less_imp_le)

lemma sumWeight_pos: "\<forall>i\<in>set row. 0 < weight i \<Longrightarrow> row \<noteq> [] \<Longrightarrow> 0 < sumWeight row"
  using sumWeight_nonneg [of "tl row"] by (cases row) (simp_all add: add_pos_nonneg)

lemma loop_wide_Cons:
  "R \<noteq> 0 \<Longrightarrow>
   layoutRowLoop (i # rest) (Fin R) True (Fin x) (Fin y) (Fin w) (Fin h) (Fin 0) (Fin off) [] =
     \<lparr>rx = Fin x, ry = Fin (y + off), rw = Fin (max 0 w), rh = Fin (max 0 (weight i / R * h)),
       ritem = i\<rparr>
     # layoutRowLoop rest (Fin R) True (Fin x) (Fin y) (Fin w) (Fin h) (Fin 0)
         (Fin (off + weight i / R * h)) []"
  using layoutRowLoop_append [of rest "Fin R" True "Fin x" "Fin y" "Fin w" "Fin h" "Fin 0"
      "Fin (off + weight i / R * h)" "[\<lparr>rx = Fin x, ry = Fin (y + off), rw = Fin (max 0 w),
      rh = Fin (max 0 (weight i / R * h)), ritem = i\<rparr>]" "[]"]
  by (simp add: minus_Fin nmax_Fin)

lemma loop_tall_Cons:
  "R \<noteq> 0 \<Longrightarrow>
   layoutRowLoop (i # rest) (Fin R) False (Fin x) (Fin y) (Fin w) (Fin h) (Fin 0) (Fin off) [] =
     \<lparr>rx = Fin (x + off), ry = Fin y, rw = Fin (max 0 (weight i / R * w)), rh = Fin (max 0 h),
       ritem = i\<rparr>
     # layoutRowLoop rest (Fin R) False (Fin x) (Fin y) (Fin w) (Fin h) (Fin 0)
         (Fin (off + weight i / R * w)) []"
  using layoutRowLoop_append [of rest "Fin R" False "Fin x" "Fin y" "Fin w" "Fin h" "Fin 0"
      "Fin (off + weight i / R * w)" "[\<lparr>rx = Fin (x + off), ry = Fin y,
      rw = Fin (max 0 (weight i / R * w)), rh = Fin (max 0 h), ritem = i\<rparr>]" "[]"]
  by (simp add: minus_Fin nmax_Fin)

lemma loop_wide_inside:
  assumes "0 < R" and "\<forall>i\<in>set row. 0 < weight i" and "0 \<le> w" and "0 \<le> h"
  shows "\<forall>r\<in>set (layoutRowLoop row (Fin R) True (Fin x) (Fin y) (Fin w) (Fin h) (Fin 0)
            (Fin off) []). inside r x (y + off) w (sumWeight row / R * h)"
  using assms(2)
proof (induction row arbitrary: off)
  case Nil
  show ?case by simp
next
  case (Cons i row)
  have wi: "0 < weight i" and rest: "\<forall>i\<in>set row. 0 < weight i" using Cons.prems by simp_all
  have nz: "R \<noteq> 0" using assms(1) by simp
  have a: "0 \<le> weight i / R * h" using wi assms(1,4) by simp
  have b: "0 \<le> sumWeight row / R * h"
    using sumWeight_nonneg [OF rest] assms(1,4) by simp
  have split: "sumWeight (i # row) / R * h = weight i / R * h + sumWeight row / R * h"
    by (simp add: add_divide_distrib distrib_right)
  have "inside r x (y + off) w (sumWeight (i # row) / R * h)"
    if "r \<in> set (layoutRowLoop row (Fin R) True (Fin x) (Fin y) (Fin w) (Fin h) (Fin 0)
            (Fin (off + weight i / R * h)) [])" for r
  proof -
    from Cons.IH [OF rest, of "off + weight i / R * h"] that
    have "inside r x (y + (off + weight i / R * h)) w (sumWeight row / R * h)" by blast
    from inside_mono [where x = x and y = "y + off" and w = w
        and h = "sumWeight (i # row) / R * h", OF this] a
    show ?thesis unfolding split by simp
  qed
  moreover have "inside \<lparr>rx = Fin x, ry = Fin (y + off), rw = Fin (max 0 w),
      rh = Fin (max 0 (weight i / R * h)), ritem = i\<rparr> x (y + off) w (sumWeight (i # row) / R * h)"
    using a b assms(3) unfolding split by (simp add: inside_def)
  ultimately show ?case unfolding loop_wide_Cons [OF nz] by simp
qed


lemma loop_tall_inside:
  assumes "0 < R" and "\<forall>i\<in>set row. 0 < weight i" and "0 \<le> w" and "0 \<le> h"
  shows "\<forall>r\<in>set (layoutRowLoop row (Fin R) False (Fin x) (Fin y) (Fin w) (Fin h) (Fin 0)
            (Fin off) []). inside r (x + off) y (sumWeight row / R * w) h"
  using assms(2)
proof (induction row arbitrary: off)
  case Nil
  show ?case by simp
next
  case (Cons i row)
  have wi: "0 < weight i" and rest: "\<forall>i\<in>set row. 0 < weight i" using Cons.prems by simp_all
  have nz: "R \<noteq> 0" using assms(1) by simp
  have a: "0 \<le> weight i / R * w" using wi assms(1,3) by simp
  have b: "0 \<le> sumWeight row / R * w"
    using sumWeight_nonneg [OF rest] assms(1,3) by simp
  have split: "sumWeight (i # row) / R * w = weight i / R * w + sumWeight row / R * w"
    by (simp add: add_divide_distrib distrib_right)
  have "inside r (x + off) y (sumWeight (i # row) / R * w) h"
    if "r \<in> set (layoutRowLoop row (Fin R) False (Fin x) (Fin y) (Fin w) (Fin h) (Fin 0)
            (Fin (off + weight i / R * w)) [])" for r
  proof -
    from Cons.IH [OF rest, of "off + weight i / R * w"] that
    have "inside r (x + (off + weight i / R * w)) y (sumWeight row / R * w) h" by blast
    from inside_mono [where x = "x + off" and y = y and w = "sumWeight (i # row) / R * w"
        and h = h, OF this] a
    show ?thesis unfolding split by simp
  qed
  moreover have "inside \<lparr>rx = Fin (x + off), ry = Fin y, rw = Fin (max 0 (weight i / R * w)),
      rh = Fin (max 0 h), ritem = i\<rparr> (x + off) y (sumWeight (i # row) / R * w) h"
    using a b assms(4) unfolding split by (simp add: inside_def)
  ultimately show ?case unfolding loop_tall_Cons [OF nz] by simp
qed

lemma loop_wide_disjoint:
  assumes "0 < R" and "\<forall>i\<in>set row. 0 < weight i" and "0 \<le> w" and "0 \<le> h"
  shows "disjointRects (layoutRowLoop row (Fin R) True (Fin x) (Fin y) (Fin w) (Fin h) (Fin 0)
            (Fin off) [])"
  using assms(2)
proof (induction row arbitrary: off)
  case Nil
  show ?case by simp
next
  case (Cons i row)
  have wi: "0 < weight i" and rest: "\<forall>i\<in>set row. 0 < weight i" using Cons.prems by simp_all
  have nz: "R \<noteq> 0" using assms(1) by simp
  have a: "0 \<le> weight i / R * h" using wi assms(1,4) by simp
  have first: "inside \<lparr>rx = Fin x, ry = Fin (y + off), rw = Fin (max 0 w),
      rh = Fin (max 0 (weight i / R * h)), ritem = i\<rparr> x (y + off) w (weight i / R * h)"
    using a assms(3) by (simp add: inside_def)
  have "\<not> overlap \<lparr>rx = Fin x, ry = Fin (y + off), rw = Fin (max 0 w),
      rh = Fin (max 0 (weight i / R * h)), ritem = i\<rparr> s"
    if "s \<in> set (layoutRowLoop row (Fin R) True (Fin x) (Fin y) (Fin w) (Fin h) (Fin 0)
            (Fin (off + weight i / R * h)) [])" for s
  proof -
    from loop_wide_inside [OF assms(1) rest assms(3,4), of x y "off + weight i / R * h"] that
    have "inside s x (y + (off + weight i / R * h)) w (sumWeight row / R * h)" by blast
    with first show ?thesis by (rule separated_y) simp
  qed
  then show ?case unfolding loop_wide_Cons [OF nz] using Cons.IH [OF rest] by simp
qed

lemma loop_tall_disjoint:
  assumes "0 < R" and "\<forall>i\<in>set row. 0 < weight i" and "0 \<le> w" and "0 \<le> h"
  shows "disjointRects (layoutRowLoop row (Fin R) False (Fin x) (Fin y) (Fin w) (Fin h) (Fin 0)
            (Fin off) [])"
  using assms(2)
proof (induction row arbitrary: off)
  case Nil
  show ?case by simp
next
  case (Cons i row)
  have wi: "0 < weight i" and rest: "\<forall>i\<in>set row. 0 < weight i" using Cons.prems by simp_all
  have nz: "R \<noteq> 0" using assms(1) by simp
  have a: "0 \<le> weight i / R * w" using wi assms(1,3) by simp
  have first: "inside \<lparr>rx = Fin (x + off), ry = Fin y, rw = Fin (max 0 (weight i / R * w)),
      rh = Fin (max 0 h), ritem = i\<rparr> (x + off) y (weight i / R * w) h"
    using a assms(4) by (simp add: inside_def)
  have "\<not> overlap \<lparr>rx = Fin (x + off), ry = Fin y, rw = Fin (max 0 (weight i / R * w)),
      rh = Fin (max 0 h), ritem = i\<rparr> s"
    if "s \<in> set (layoutRowLoop row (Fin R) False (Fin x) (Fin y) (Fin w) (Fin h) (Fin 0)
            (Fin (off + weight i / R * w)) [])" for s
  proof -
    from loop_tall_inside [OF assms(1) rest assms(3,4), of x y "off + weight i / R * w"] that
    have "inside s (x + (off + weight i / R * w)) y (sumWeight row / R * w) h" by blast
    with first show ?thesis by (rule separated_x) simp
  qed
  then show ?case unfolding loop_tall_Cons [OF nz] using Cons.IH [OF rest] by simp
qed

lemma loop_wide_area:
  assumes "0 < R" and "\<forall>i\<in>set row. 0 < weight i" and "0 \<le> w" and "0 \<le> h"
  shows "areaSum (layoutRowLoop row (Fin R) True (Fin x) (Fin y) (Fin w) (Fin h) (Fin 0)
            (Fin off) []) = Fin (w * (sumWeight row / R * h))"
  using assms(2)
proof (induction row arbitrary: off)
  case Nil
  show ?case by simp
next
  case (Cons i row)
  have wi: "0 < weight i" and rest: "\<forall>i\<in>set row. 0 < weight i" using Cons.prems by simp_all
  have nz: "R \<noteq> 0" using assms(1) by simp
  have a: "0 \<le> weight i / R * h" using wi assms(1,4) by simp
  show ?case unfolding loop_wide_Cons [OF nz] using assms(1,3) a Cons.IH [OF rest]
    by (simp add: max_def algebra_simps add_divide_distrib)
qed

lemma loop_tall_area:
  assumes "0 < R" and "\<forall>i\<in>set row. 0 < weight i" and "0 \<le> w" and "0 \<le> h"
  shows "areaSum (layoutRowLoop row (Fin R) False (Fin x) (Fin y) (Fin w) (Fin h) (Fin 0)
            (Fin off) []) = Fin (sumWeight row / R * w * h)"
  using assms(2)
proof (induction row arbitrary: off)
  case Nil
  show ?case by simp
next
  case (Cons i row)
  have wi: "0 < weight i" and rest: "\<forall>i\<in>set row. 0 < weight i" using Cons.prems by simp_all
  have nz: "R \<noteq> 0" using assms(1) by simp
  have a: "0 \<le> weight i / R * w" using wi assms(1,3) by simp
  show ?case unfolding loop_tall_Cons [OF nz] using assms(1,4) a Cons.IH [OF rest]
    by (simp add: max_def algebra_simps add_divide_distrib)
qed


lemma length_layoutRowLoop:
  "length (layoutRowLoop row R b x y w h gap off out) = length out + length row"
  using items_layoutRowLoop [of row R b x y w h gap off out, THEN arg_cong, of length]
  by simp

lemma loop_wide_chain:
  assumes "0 < R" and "\<forall>i\<in>set row. 0 < weight i" and "0 \<le> w" and "0 \<le> h"
  shows "successively abutsBelow (layoutRowLoop row (Fin R) True (Fin x) (Fin y) (Fin w) (Fin h)
            (Fin 0) (Fin off) [])
       \<and> (row \<noteq> [] \<longrightarrow>
            rx (hd (layoutRowLoop row (Fin R) True (Fin x) (Fin y) (Fin w) (Fin h)
              (Fin 0) (Fin off) [])) = Fin x
          \<and> ry (hd (layoutRowLoop row (Fin R) True (Fin x) (Fin y) (Fin w) (Fin h)
              (Fin 0) (Fin off) [])) = Fin (y + off)
          \<and> rw (hd (layoutRowLoop row (Fin R) True (Fin x) (Fin y) (Fin w) (Fin h)
              (Fin 0) (Fin off) [])) = Fin w)"
  using assms(2)
proof (induction row arbitrary: off)
  case Nil
  show ?case by simp
next
  case (Cons i row)
  have wi: "0 < weight i" and rest: "\<forall>i\<in>set row. 0 < weight i" using Cons.prems by simp_all
  have nz: "R \<noteq> 0" using assms(1) by simp
  have a: "0 \<le> weight i / R * h" using wi assms(1,4) by simp
  let ?rest = "layoutRowLoop row (Fin R) True (Fin x) (Fin y) (Fin w) (Fin h) (Fin 0)
      (Fin (off + weight i / R * h)) []"
  have e: "?rest = [] \<longleftrightarrow> row = []"
    using length_layoutRowLoop [of row "Fin R" True "Fin x" "Fin y" "Fin w" "Fin h" "Fin 0"
        "Fin (off + weight i / R * h)" "[]"] by (metis length_0_conv list.size(3) add_0)
  show ?case unfolding loop_wide_Cons [OF nz] successively_Cons
    using Cons.IH [OF rest, of "off + weight i / R * h"] a assms(3) e
    by (auto simp add: abutsBelow_def max_def add.assoc)
qed

lemma loop_tall_chain:
  assumes "0 < R" and "\<forall>i\<in>set row. 0 < weight i" and "0 \<le> w" and "0 \<le> h"
  shows "successively abutsRight (layoutRowLoop row (Fin R) False (Fin x) (Fin y) (Fin w) (Fin h)
            (Fin 0) (Fin off) [])
       \<and> (row \<noteq> [] \<longrightarrow>
            rx (hd (layoutRowLoop row (Fin R) False (Fin x) (Fin y) (Fin w) (Fin h)
              (Fin 0) (Fin off) [])) = Fin (x + off)
          \<and> ry (hd (layoutRowLoop row (Fin R) False (Fin x) (Fin y) (Fin w) (Fin h)
              (Fin 0) (Fin off) [])) = Fin y
          \<and> rh (hd (layoutRowLoop row (Fin R) False (Fin x) (Fin y) (Fin w) (Fin h)
              (Fin 0) (Fin off) [])) = Fin h)"
  using assms(2)
proof (induction row arbitrary: off)
  case Nil
  show ?case by simp
next
  case (Cons i row)
  have wi: "0 < weight i" and rest: "\<forall>i\<in>set row. 0 < weight i" using Cons.prems by simp_all
  have nz: "R \<noteq> 0" using assms(1) by simp
  have a: "0 \<le> weight i / R * w" using wi assms(1,3) by simp
  let ?rest = "layoutRowLoop row (Fin R) False (Fin x) (Fin y) (Fin w) (Fin h) (Fin 0)
      (Fin (off + weight i / R * w)) []"
  have e: "?rest = [] \<longleftrightarrow> row = []"
    using length_layoutRowLoop [of row "Fin R" False "Fin x" "Fin y" "Fin w" "Fin h" "Fin 0"
        "Fin (off + weight i / R * w)" "[]"] by (metis length_0_conv list.size(3) add_0)
  show ?case unfolding loop_tall_Cons [OF nz] successively_Cons
    using Cons.IH [OF rest, of "off + weight i / R * w"] a assms(4) e
    by (auto simp add: abutsRight_def max_def add.assoc)
qed

lemma layoutRow_Fin:
  "row \<noteq> [] \<Longrightarrow>
   layoutRow row (Fin x) (Fin y) (Fin w) (Fin h) T [] (Fin 0) =
     layoutRowLoop row (Fin (sumWeight row)) (h \<le> w) (Fin x) (Fin y) (Fin w) (Fin h) (Fin 0)
       (Fin 0) []"
  by (simp add: layoutRow_def)

lemma layoutRow_geometry:
  assumes "row \<noteq> []" and "\<forall>i\<in>set row. 0 < weight i" and "0 \<le> w" and "0 \<le> h"
  shows "(\<forall>r\<in>set (layoutRow row (Fin x) (Fin y) (Fin w) (Fin h) T [] (Fin 0)). inside r x y w h)
       \<and> disjointRects (layoutRow row (Fin x) (Fin y) (Fin w) (Fin h) T [] (Fin 0))
       \<and> areaSum (layoutRow row (Fin x) (Fin y) (Fin w) (Fin h) T [] (Fin 0)) = Fin (w * h)"
proof -
  have R: "0 < sumWeight row" using assms(1,2) by (simp add: sumWeight_pos)
  then have one: "sumWeight row / sumWeight row = 1" by simp
  show ?thesis
  proof (cases "h \<le> w")
    case True
    show ?thesis unfolding layoutRow_Fin [OF assms(1)]
      using True loop_wide_inside [OF R assms(2,3,4), of x y 0]
        loop_wide_disjoint [OF R assms(2,3,4), of x y 0]
        loop_wide_area [OF R assms(2,3,4), of x y 0] one
      by simp
  next
    case False
    show ?thesis unfolding layoutRow_Fin [OF assms(1)]
      using False loop_tall_inside [OF R assms(2,3,4), of x y 0]
        loop_tall_disjoint [OF R assms(2,3,4), of x y 0]
        loop_tall_area [OF R assms(2,3,4), of x y 0] one
      by simp
  qed
qed


lemma squarify_nil_out:
  "squarify cs row x y w h t out gap = out @ squarify cs row x y w h t [] gap"
  using squarify_append [of cs row x y w h t out "[]" gap] by simp

lemma flush_arith:
  fixes R t w :: real
  assumes "0 < R" and "R \<le> t" and "0 \<le> w"
  shows "0 \<le> R / t * w" and "R / t * w \<le> w"
proof -
  have t: "0 < t" using assms(1,2) by simp
  then have f: "0 \<le> R / t" and g: "R / t \<le> 1" using assms(1,2) by simp_all
  show "0 \<le> R / t * w" using f assms(3) by (rule mult_nonneg_nonneg)
  have "R / t * w \<le> 1 * w" using g assms(3) by (rule mult_right_mono)
  then show "R / t * w \<le> w" by simp
qed

lemma squarify_geometry:
  assumes "\<forall>i\<in>set cs \<union> set row. 0 < weight i" and "cs \<noteq> [] \<or> row \<noteq> []"
    and "t = sumWeight cs + sumWeight row" and "0 \<le> w" and "0 \<le> h"
  shows "(\<forall>r\<in>set (squarify cs row (Fin x) (Fin y) (Fin w) (Fin h) (Fin t) [] (Fin 0)).
            inside r x y w h)
       \<and> disjointRects (squarify cs row (Fin x) (Fin y) (Fin w) (Fin h) (Fin t) [] (Fin 0))
       \<and> areaSum (squarify cs row (Fin x) (Fin y) (Fin w) (Fin h) (Fin t) [] (Fin 0))
           = Fin (w * h)"
  using assms
proof (induction cs arbitrary: row x y w h t)
  case Nil
  then show ?case using layoutRow_geometry [of row w h x y "Fin t"] by simp
next
  case (Cons c cs)
  let ?W = "Fin w" and ?H = "Fin h" and ?T = "Fin t"
  have wc: "0 < weight c" and cspos: "\<forall>i\<in>set cs. 0 < weight i"
    and rowpos: "\<forall>i\<in>set row. 0 < weight i"
    using Cons.prems(1) by simp_all
  show ?case
  proof (cases "row = [] \<or> worst (row @ [c]) ?W ?H (?W * ?H) ?T \<le> worst row ?W ?H (?W * ?H) ?T")
    case True
    have eq: "squarify (c # cs) row (Fin x) (Fin y) ?W ?H ?T [] (Fin 0)
        = squarify cs (row @ [c]) (Fin x) (Fin y) ?W ?H ?T [] (Fin 0)"
      using True by (simp only: squarify_Cons if_True)
    show ?thesis unfolding eq
      by (rule Cons.IH) (use Cons.prems in auto)
  next
    case False
    then have rowne: "row \<noteq> []" by simp
    let ?R = "sumWeight row"
    have R: "0 < ?R" using rowpos rowne by (rule sumWeight_pos)
    have Rt: "?R \<le> t"
      using Cons.prems(3) wc sumWeight_nonneg [OF cspos] by simp
    have tnz: "t \<noteq> 0" using R Rt by simp
    have t': "t - ?R = sumWeight cs + sumWeight [c]" using Cons.prems(3) by simp
    have pos': "\<forall>i\<in>set cs \<union> set [c]. 0 < weight i" using wc cspos by simp
    show ?thesis
    proof (cases "h \<le> w")
      case True
      let ?rowW = "?R / t * w"
      have a: "0 \<le> ?rowW" and b: "?rowW \<le> w"
        using flush_arith [OF R Rt Cons.prems(4)] by simp_all
      let ?strip = "layoutRow row (Fin x) (Fin y) (Fin ?rowW) ?H ?T [] (Fin 0)"
      let ?rest = "squarify cs [c] (Fin (x + ?rowW)) (Fin y) (Fin (w - ?rowW)) ?H (Fin (t - ?R))
          [] (Fin 0)"
      have eq: "squarify (c # cs) row (Fin x) (Fin y) ?W ?H ?T [] (Fin 0) = ?strip @ ?rest"
        using False True tnz
        by (simp add: squarify_Cons minus_Fin squarify_nil_out [where out = "layoutRow _ _ _ _ _ _ _ _"])
      have S: "(\<forall>r\<in>set ?strip. inside r x y ?rowW h) \<and> disjointRects ?strip
          \<and> areaSum ?strip = Fin (?rowW * h)"
        by (rule layoutRow_geometry [OF rowne rowpos a Cons.prems(5)])
      have Q: "(\<forall>r\<in>set ?rest. inside r (x + ?rowW) y (w - ?rowW) h) \<and> disjointRects ?rest
          \<and> areaSum ?rest = Fin ((w - ?rowW) * h)"
        by (rule Cons.IH [OF pos' _ t' _ Cons.prems(5)]) (use b in simp_all)
      have in1: "inside r x y w h" if "r \<in> set ?strip" for r
        using inside_mono [where x = x and y = y and w = w and h = h, of r x y ?rowW h] S that b
        by simp
      have in2: "inside r x y w h" if "r \<in> set ?rest" for r
        using inside_mono [where x = x and y = y and w = w and h = h,
            of r "x + ?rowW" y "w - ?rowW" h] Q that a
        by simp
      have sep: "\<not> overlap r s" if "r \<in> set ?strip" and "s \<in> set ?rest" for r s
        using separated_x [of r x y ?rowW h s "x + ?rowW" y "w - ?rowW" h] S Q that by simp
      have area: "areaSum (?strip @ ?rest) = Fin (?rowW * h + (w - ?rowW) * h)"
        using S Q by (simp add: areaSum_append)
      have "?rowW * h + (w - ?rowW) * h = w * h" by (simp add: algebra_simps)
      with area have area': "areaSum (?strip @ ?rest) = Fin (w * h)" by simp
      show ?thesis unfolding eq
        using in1 in2 sep S Q area' by (auto simp add: disjointRects_append)
    next
      case tall: False
      let ?rowH = "?R / t * h"
      have a: "0 \<le> ?rowH" and b: "?rowH \<le> h"
        using flush_arith [OF R Rt Cons.prems(5)] by simp_all
      let ?strip = "layoutRow row (Fin x) (Fin y) ?W (Fin ?rowH) ?T [] (Fin 0)"
      let ?rest = "squarify cs [c] (Fin x) (Fin (y + ?rowH)) ?W (Fin (h - ?rowH)) (Fin (t - ?R))
          [] (Fin 0)"
      have eq: "squarify (c # cs) row (Fin x) (Fin y) ?W ?H ?T [] (Fin 0) = ?strip @ ?rest"
        using False tall tnz
        by (simp add: squarify_Cons minus_Fin squarify_nil_out [where out = "layoutRow _ _ _ _ _ _ _ _"])
      have S: "(\<forall>r\<in>set ?strip. inside r x y w ?rowH) \<and> disjointRects ?strip
          \<and> areaSum ?strip = Fin (w * ?rowH)"
        by (rule layoutRow_geometry [OF rowne rowpos Cons.prems(4) a])
      have Q: "(\<forall>r\<in>set ?rest. inside r x (y + ?rowH) w (h - ?rowH)) \<and> disjointRects ?rest
          \<and> areaSum ?rest = Fin (w * (h - ?rowH))"
        by (rule Cons.IH [OF pos' _ t' Cons.prems(4)]) (use b in simp_all)
      have in1: "inside r x y w h" if "r \<in> set ?strip" for r
        using inside_mono [where x = x and y = y and w = w and h = h, of r x y w ?rowH] S that b
        by simp
      have in2: "inside r x y w h" if "r \<in> set ?rest" for r
        using inside_mono [where x = x and y = y and w = w and h = h,
            of r x "y + ?rowH" w "h - ?rowH"] Q that a
        by simp
      have sep: "\<not> overlap r s" if "r \<in> set ?strip" and "s \<in> set ?rest" for r s
        using separated_y [of r x y w ?rowH s x "y + ?rowH" w "h - ?rowH"] S Q that by simp
      have area: "areaSum (?strip @ ?rest) = Fin (w * ?rowH + w * (h - ?rowH))"
        using S Q by (simp add: areaSum_append)
      have "w * ?rowH + w * (h - ?rowH) = w * h" by (simp add: algebra_simps)
      with area have area': "areaSum (?strip @ ?rest) = Fin (w * h)" by simp
      show ?thesis unfolding eq
        using in1 in2 sep S Q area' by (auto simp add: disjointRects_append)
    qed
  qed
qed


lemma overlap_sym: "overlap r s \<longleftrightarrow> overlap s r"
  by (auto simp add: overlap_def)

lemma disjointRects_nth:
  "disjointRects rs \<Longrightarrow> i < j \<Longrightarrow> j < length rs \<Longrightarrow> \<not> overlap (rs ! i) (rs ! j)"
proof (induction rs arbitrary: i j)
  case Nil
  then show ?case by simp
next
  case (Cons r rs)
  show ?case
  proof (cases i)
    case 0
    then obtain j' where j: "j = Suc j'" using Cons.prems(2) by (cases j) simp_all
    then have "rs ! j' \<in> set rs" using Cons.prems(3) by simp
    then show ?thesis using Cons.prems(1) 0 j by simp
  next
    case (Suc i')
    then obtain j' where j: "j = Suc j'" using Cons.prems(2) by (cases j) simp_all
    show ?thesis using Cons.IH [of i' j'] Cons.prems Suc j by simp
  qed
qed

lemma layoutRow_chain:
  assumes "row \<noteq> []" and "\<forall>i\<in>set row. 0 < weight i" and "0 \<le> w" and "0 \<le> h"
  shows "(successively abutsBelow (layoutRow row (Fin x) (Fin y) (Fin w) (Fin h) T [] (Fin 0))
          \<or> successively abutsRight (layoutRow row (Fin x) (Fin y) (Fin w) (Fin h) T [] (Fin 0)))
       \<and> rx (hd (layoutRow row (Fin x) (Fin y) (Fin w) (Fin h) T [] (Fin 0))) = Fin x
       \<and> ry (hd (layoutRow row (Fin x) (Fin y) (Fin w) (Fin h) T [] (Fin 0))) = Fin y"
proof -
  have R: "0 < sumWeight row" using assms(1,2) by (simp add: sumWeight_pos)
  show ?thesis
  proof (cases "h \<le> w")
    case True
    show ?thesis unfolding layoutRow_Fin [OF assms(1)]
      using True loop_wide_chain [OF R assms(2,3,4), of x y 0] assms(1) by simp
  next
    case False
    show ?thesis unfolding layoutRow_Fin [OF assms(1)]
      using False loop_tall_chain [OF R assms(2,3,4), of x y 0] assms(1) by simp
  qed
qed

text \<open>
  C1. For a non-empty item list whose weights are all positive and a region of width
  \<open>w \<ge> 0\<close> and height \<open>h \<ge> 0\<close>, \<open>layoutTreemap\<close> with gap 0 returns rectangles whose
  areas sum to \<open>w * h\<close> (in exact arithmetic), no two of which overlap, and which all lie
  inside the region.
\<close>

theorem treemap_tiling:
  assumes "items \<noteq> []" and "\<forall>i\<in>set items. 0 < weight i" and "0 \<le> w" and "0 \<le> h"
  shows "areaSum (layoutTreemap items (Fin x) (Fin y) (Fin w) (Fin h) (Fin 0)) = Fin (w * h)
       \<and> (\<forall>i j. i < length (layoutTreemap items (Fin x) (Fin y) (Fin w) (Fin h) (Fin 0))
              \<and> j < length (layoutTreemap items (Fin x) (Fin y) (Fin w) (Fin h) (Fin 0))
              \<and> i \<noteq> j
            \<longrightarrow> \<not> overlap (layoutTreemap items (Fin x) (Fin y) (Fin w) (Fin h) (Fin 0) ! i)
                          (layoutTreemap items (Fin x) (Fin y) (Fin w) (Fin h) (Fin 0) ! j))
       \<and> (\<forall>r\<in>set (layoutTreemap items (Fin x) (Fin y) (Fin w) (Fin h) (Fin 0)).
            inside r x y w h)"
proof -
  let ?sorted = "sort_key (\<lambda>i. - weight i) items"
  let ?out = "squarify ?sorted [] (Fin x) (Fin y) (Fin w) (Fin h) (Fin (sumWeight ?sorted)) []
      (Fin 0)"
  have ne: "?sorted \<noteq> []" using assms(1) by (metis length_sort length_0_conv)
  have pos: "\<forall>i\<in>set ?sorted \<union> set []. 0 < weight i" using assms(2) by simp
  have tot: "0 < sumWeight ?sorted" using pos ne by (simp add: sumWeight_pos)
  have eq: "layoutTreemap items (Fin x) (Fin y) (Fin w) (Fin h) (Fin 0) = ?out"
    using assms(1) tot by (simp add: layoutTreemap_def Let_def)
  have G: "(\<forall>r\<in>set ?out. inside r x y w h) \<and> disjointRects ?out \<and> areaSum ?out = Fin (w * h)"
    by (rule squarify_geometry [OF pos _ _ assms(3,4)]) (use ne in simp_all)
  have "\<not> overlap (?out ! i) (?out ! j)" if "i < length ?out" "j < length ?out" "i \<noteq> j" for i j
  proof (cases "i < j")
    case True
    with G that show ?thesis by (simp add: disjointRects_nth)
  next
    case False
    then have "j < i" using that(3) by simp
    with G that have "\<not> overlap (?out ! j) (?out ! i)" by (simp add: disjointRects_nth)
    then show ?thesis using overlap_sym by blast
  qed
  with G show ?thesis unfolding eq by blast
qed

theorem treemap_tiling_witness:
  "areaSum (layoutTreemap [\<lparr>label = ''a'', weight = 50, change = 0\<rparr>, \<lparr>label = ''b'', weight = 30, change = 0\<rparr>, \<lparr>label = ''c'', weight = 20, change = 0\<rparr>] (Fin 0) (Fin 0) (Fin 100) (Fin 100) (Fin 0))
     = Fin (100 * 100)"
  by (rule treemap_tiling [THEN conjunct1]) simp_all

lemma sumWeight_nonpos: "\<forall>i\<in>set row. weight i \<le> 0 \<Longrightarrow> sumWeight row \<le> 0"
  by (induction row) (simp_all add: add_nonpos_nonpos)

text \<open>
  C2, as stated, fails: no item is filtered out. With the weights 5 and -1 in a region of
  100 by 100 the item of weight -1 is in the output (with height 0, below a rectangle of
  height 125).
\<close>

theorem treemap_filter_counterexample:
  "layoutTreemap [\<lparr>label = ''a'', weight = 5, change = 0\<rparr>, \<lparr>label = ''b'', weight = - 1, change = 0\<rparr>] (Fin 0) (Fin 0) (Fin 100) (Fin 100) (Fin 0) =
     [\<lparr>rx = Fin 0, ry = Fin 0, rw = Fin 100, rh = Fin 125, ritem = \<lparr>label = ''a'', weight = 5, change = 0\<rparr>\<rparr>,
      \<lparr>rx = Fin 0, ry = Fin 125, rw = Fin 100, rh = Fin 0, ritem = \<lparr>label = ''b'', weight = - 1, change = 0\<rparr>\<rparr>]"
  by (simp add: layoutTreemap_def squarify_Cons worst_def sumWeight_def layoutRow_def nmax_def
      minus_Fin Let_def)

text \<open>
  C2, amended. \<open>layoutTreemap\<close> returns the empty list when the item list is empty or the
  total weight is not positive, in particular when no item has a positive weight.
  Otherwise it lays out every item, those of weight zero or less included: the items of
  the output are the items of the input in descending order of weight.
\<close>

theorem treemap_items:
  "(sumWeight items \<le> 0 \<longrightarrow> layoutTreemap items x y w h gap = [])
 \<and> ((\<forall>i\<in>set items. weight i \<le> 0) \<longrightarrow> layoutTreemap items x y w h gap = [])
 \<and> (0 < sumWeight items \<longrightarrow>
      map ritem (layoutTreemap items x y w h gap) = sort_key (\<lambda>i. - weight i) items)"
proof -
  have a: "layoutTreemap items x y w h gap = []" if "sumWeight items \<le> 0"
    using that by (simp add: layoutTreemap_def Let_def sumWeight_sort)
  have b: "layoutTreemap items x y w h gap = []" if "\<forall>i\<in>set items. weight i \<le> 0"
    using a sumWeight_nonpos [OF that] by simp
  have c: "map ritem (layoutTreemap items x y w h gap) = sort_key (\<lambda>i. - weight i) items"
    if "0 < sumWeight items"
    using that by (rule layoutTreemap_items)
  from a b c show ?thesis by blast
qed

theorem treemap_items_witness:
  "map ritem (layoutTreemap [\<lparr>label = ''b'', weight = - 1, change = 0\<rparr>, \<lparr>label = ''a'', weight = 5, change = 0\<rparr>] (Fin 0) (Fin 0) (Fin 100) (Fin 100) (Fin 0)) = [\<lparr>label = ''a'', weight = 5, change = 0\<rparr>, \<lparr>label = ''b'', weight = - 1, change = 0\<rparr>]
 \<and> layoutTreemap [\<lparr>label = ''b'', weight = - 1, change = 0\<rparr>] (Fin 0) (Fin 0) (Fin 100) (Fin 100) (Fin 0) = []"
  using treemap_items [of "[\<lparr>label = ''b'', weight = - 1, change = 0\<rparr>, \<lparr>label = ''a'', weight = 5, change = 0\<rparr>]" "Fin 0" "Fin 0" "Fin 100" "Fin 100" "Fin 0"]
    treemap_items [of "[\<lparr>label = ''b'', weight = - 1, change = 0\<rparr>]" "Fin 0" "Fin 0" "Fin 100" "Fin 100" "Fin 0"]
  by (simp add: sumWeight_def)

text \<open>
  C3, as stated, fails. With the weights 3 and 1 in the wide region of width 2 and height 1
  the row holding the first item is flushed; its strip has width 3/2, not the full width 2,
  and spans the full height; the next strip starts at \<open>x = 3/2\<close>, \<open>y = 0\<close>, to the right of
  the first and not below it.
\<close>

theorem strip_orientation_counterexample:
  "Fin 2 \<ge> Fin 1
 \<and> \<not> worst [\<lparr>label = ''a'', weight = 3, change = 0\<rparr>, \<lparr>label = ''b'', weight = 1, change = 0\<rparr>] (Fin 2) (Fin 1) (Fin 2 * Fin 1) (Fin 4)
       \<le> worst [\<lparr>label = ''a'', weight = 3, change = 0\<rparr>] (Fin 2) (Fin 1) (Fin 2 * Fin 1) (Fin 4)
 \<and> layoutTreemap [\<lparr>label = ''a'', weight = 3, change = 0\<rparr>, \<lparr>label = ''b'', weight = 1, change = 0\<rparr>] (Fin 0) (Fin 0) (Fin 2) (Fin 1) (Fin 0) =
     [\<lparr>rx = Fin 0, ry = Fin 0, rw = Fin (3 / 2), rh = Fin 1, ritem = \<lparr>label = ''a'', weight = 3, change = 0\<rparr>\<rparr>,
      \<lparr>rx = Fin (3 / 2), ry = Fin 0, rw = Fin (1 / 2), rh = Fin 1, ritem = \<lparr>label = ''b'', weight = 1, change = 0\<rparr>\<rparr>]"
  by (simp add: layoutTreemap_def squarify_Cons worst_def sumWeight_def layoutRow_def nmax_def
      minus_Fin Let_def)

text \<open>
  C3, amended. Let the weights be positive, the region have width \<open>w \<ge> 0\<close> and height
  \<open>h \<ge> 0\<close>, \<open>totalArea\<close> be the weight still to lay out, and the gap be 0. When \<open>squarify\<close>
  flushes a row (the row is not empty and the next item would worsen its worst ratio), it
  appends the rectangles of the row, in the order of the row, and then those of the
  remaining items. In a wide region (\<open>w \<ge> h\<close>) the strip of the row has the share
  \<open>rowWeight / totalArea\<close> of the width and the full height, and the remaining items are
  laid out in the rest of the region to its right; in a tall region the strip has the full
  width and that share of the height, and the remaining items are laid out below it.
  The rectangles of the row fill the strip; they are placed one after the other from the
  strip's corner along one axis, each spanning the strip along the other axis.
\<close>

theorem squarify_flush:
  fixes c :: HeatmapItem and cs row :: "HeatmapItem list" and x y w h t :: real
  defines "sw \<equiv> (if h \<le> w then sumWeight row / t * w else w)"
    and "sh \<equiv> (if h \<le> w then h else sumWeight row / t * h)"
  defines "strip \<equiv> layoutRow row (Fin x) (Fin y) (Fin sw) (Fin sh) (Fin t) [] (Fin 0)"
    and "rest \<equiv> squarify (c # cs) []
          (Fin (if h \<le> w then x + sw else x)) (Fin (if h \<le> w then y else y + sh))
          (Fin (if h \<le> w then w - sw else w)) (Fin (if h \<le> w then h else h - sh))
          (Fin (t - sumWeight row)) [] (Fin 0)"
  assumes "\<forall>i\<in>set (c # cs) \<union> set row. 0 < weight i"
    and "t = sumWeight (c # cs) + sumWeight row" and "0 \<le> w" and "0 \<le> h"
    and "row \<noteq> []"
    and "\<not> worst (row @ [c]) (Fin w) (Fin h) (Fin w * Fin h) (Fin t)
           \<le> worst row (Fin w) (Fin h) (Fin w * Fin h) (Fin t)"
  shows "squarify (c # cs) row (Fin x) (Fin y) (Fin w) (Fin h) (Fin t) out (Fin 0)
           = out @ strip @ rest
       \<and> map ritem strip = row \<and> map ritem rest = c # cs
       \<and> (\<forall>r\<in>set strip. inside r x y sw sh) \<and> areaSum strip = Fin (sw * sh)
       \<and> (\<forall>r\<in>set rest. inside r (if h \<le> w then x + sw else x) (if h \<le> w then y else y + sh)
                            (if h \<le> w then w - sw else w) (if h \<le> w then h else h - sh))
       \<and> (successively abutsBelow strip \<or> successively abutsRight strip)
       \<and> rx (hd strip) = Fin x \<and> ry (hd strip) = Fin y"
proof -
  let ?R = "sumWeight row"
  have rowpos: "\<forall>i\<in>set row. 0 < weight i" and cpos: "\<forall>i\<in>set (c # cs). 0 < weight i"
    using assms(5) by simp_all
  have R: "0 < ?R" using rowpos assms(9) by (rule sumWeight_pos)
  have "0 < sumWeight (c # cs)" using cpos by (rule sumWeight_pos) simp
  then have Rt: "?R \<le> t" using assms(6) by simp
  have tnz: "t \<noteq> 0" using R Rt by simp
  have pos': "\<forall>i\<in>set (c # cs) \<union> set []. 0 < weight i" using cpos by simp
  have t': "t - ?R = sumWeight (c # cs) + sumWeight []" using assms(6) by simp
  have sw: "0 \<le> sw" "sw \<le> w" and sh: "0 \<le> sh" "sh \<le> h"
    using flush_arith [OF R Rt assms(7)] flush_arith [OF R Rt assms(8)] assms(7,8)
    by (simp_all add: sw_def sh_def)
  have eq: "squarify (c # cs) row (Fin x) (Fin y) (Fin w) (Fin h) (Fin t) out (Fin 0)
      = out @ strip @ rest"
  proof (cases "h \<le> w")
    case True
    have "squarify (c # cs) row (Fin x) (Fin y) (Fin w) (Fin h) (Fin t) out (Fin 0)
        = squarify (c # cs) [] (Fin (x + ?R / t * w)) (Fin y) (Fin (w - ?R / t * w)) (Fin h)
            (Fin (t - ?R)) (layoutRow row (Fin x) (Fin y) (Fin (?R / t * w)) (Fin h) (Fin t) out
              (Fin 0)) (Fin 0)"
      using True assms(9,10) tnz by (simp add: squarify.simps(2) minus_Fin)
    also have "\<dots> = layoutRow row (Fin x) (Fin y) (Fin (?R / t * w)) (Fin h) (Fin t) out (Fin 0)
        @ squarify (c # cs) [] (Fin (x + ?R / t * w)) (Fin y) (Fin (w - ?R / t * w)) (Fin h)
            (Fin (t - ?R)) [] (Fin 0)"
      by (rule squarify_nil_out)
    also have "layoutRow row (Fin x) (Fin y) (Fin (?R / t * w)) (Fin h) (Fin t) out (Fin 0)
        = out @ layoutRow row (Fin x) (Fin y) (Fin (?R / t * w)) (Fin h) (Fin t) [] (Fin 0)"
      using layoutRow_append [of row _ _ _ _ _ out "[]"] by simp
    finally show ?thesis using True by (simp add: strip_def rest_def sw_def sh_def)
  next
    case False
    have "squarify (c # cs) row (Fin x) (Fin y) (Fin w) (Fin h) (Fin t) out (Fin 0)
        = squarify (c # cs) [] (Fin x) (Fin (y + ?R / t * h)) (Fin w) (Fin (h - ?R / t * h))
            (Fin (t - ?R)) (layoutRow row (Fin x) (Fin y) (Fin w) (Fin (?R / t * h)) (Fin t) out
              (Fin 0)) (Fin 0)"
      using False assms(9,10) tnz by (simp add: squarify.simps(2) minus_Fin)
    also have "\<dots> = layoutRow row (Fin x) (Fin y) (Fin w) (Fin (?R / t * h)) (Fin t) out (Fin 0)
        @ squarify (c # cs) [] (Fin x) (Fin (y + ?R / t * h)) (Fin w) (Fin (h - ?R / t * h))
            (Fin (t - ?R)) [] (Fin 0)"
      by (rule squarify_nil_out)
    also have "layoutRow row (Fin x) (Fin y) (Fin w) (Fin (?R / t * h)) (Fin t) out (Fin 0)
        = out @ layoutRow row (Fin x) (Fin y) (Fin w) (Fin (?R / t * h)) (Fin t) [] (Fin 0)"
      using layoutRow_append [of row _ _ _ _ _ out "[]"] by simp
    finally show ?thesis using False by (simp add: strip_def rest_def sw_def sh_def)
  qed
  have items: "map ritem strip = row" "map ritem rest = c # cs"
    by (simp_all add: strip_def rest_def items_layoutRow items_squarify)
  have S: "(\<forall>r\<in>set strip. inside r x y sw sh) \<and> disjointRects strip
      \<and> areaSum strip = Fin (sw * sh)"
    unfolding strip_def by (rule layoutRow_geometry [OF assms(9) rowpos sw(1) sh(1)])
  have Q: "\<forall>r\<in>set rest. inside r (if h \<le> w then x + sw else x) (if h \<le> w then y else y + sh)
                            (if h \<le> w then w - sw else w) (if h \<le> w then h else h - sh)"
    unfolding rest_def
    using squarify_geometry [OF pos' _ t', of "if h \<le> w then w - sw else w"
        "if h \<le> w then h else h - sh" "if h \<le> w then x + sw else x"
        "if h \<le> w then y else y + sh"] sw sh assms(7,8)
    by simp
  have C: "(successively abutsBelow strip \<or> successively abutsRight strip)
      \<and> rx (hd strip) = Fin x \<and> ry (hd strip) = Fin y"
    unfolding strip_def by (rule layoutRow_chain [OF assms(9) rowpos sw(1) sh(1)])
  from eq items S Q C show ?thesis by blast
qed

theorem squarify_flush_witness:
  "squarify [\<lparr>label = ''b'', weight = 1, change = 0\<rparr>] [\<lparr>label = ''a'', weight = 3, change = 0\<rparr>] (Fin 0) (Fin 0) (Fin 2) (Fin 1) (Fin 4) [] (Fin 0)
     = layoutRow [\<lparr>label = ''a'', weight = 3, change = 0\<rparr>] (Fin 0) (Fin 0) (Fin (3 / 2)) (Fin 1) (Fin 4) [] (Fin 0)
       @ squarify [\<lparr>label = ''b'', weight = 1, change = 0\<rparr>] [] (Fin (3 / 2)) (Fin 0) (Fin (1 / 2)) (Fin 1) (Fin 1) [] (Fin 0)
 \<and> map ritem (layoutRow [\<lparr>label = ''a'', weight = 3, change = 0\<rparr>] (Fin 0) (Fin 0) (Fin (3 / 2)) (Fin 1) (Fin 4) [] (Fin 0)) = [\<lparr>label = ''a'', weight = 3, change = 0\<rparr>]
 \<and> areaSum (layoutRow [\<lparr>label = ''a'', weight = 3, change = 0\<rparr>] (Fin 0) (Fin 0) (Fin (3 / 2)) (Fin 1) (Fin 4) [] (Fin 0))
     = Fin (3 / 2)"
proof -
  have flush: "\<not> worst ([\<lparr>label = ''a'', weight = 3, change = 0\<rparr>] @ [\<lparr>label = ''b'', weight = 1, change = 0\<rparr>]) (Fin 2) (Fin 1) (Fin 2 * Fin 1) (Fin 4)
       \<le> worst [\<lparr>label = ''a'', weight = 3, change = 0\<rparr>] (Fin 2) (Fin 1) (Fin 2 * Fin 1) (Fin 4)"
    by (simp add: worst_def sumWeight_def nmax_def)
  have pos: "\<forall>i\<in>set (\<lparr>label = ''b'', weight = 1, change = 0\<rparr> # []) \<union> set [\<lparr>label = ''a'', weight = 3, change = 0\<rparr>]. 0 < weight i" by simp
  have tot: "(4::real) = sumWeight (\<lparr>label = ''b'', weight = 1, change = 0\<rparr> # []) + sumWeight [\<lparr>label = ''a'', weight = 3, change = 0\<rparr>]" by simp
  from squarify_flush [OF pos tot _ _ _ flush, of 0 0 "[]"]
  show ?thesis by simp
qed


section \<open>Properties of the stacking of the area chart\<close>

lemma length_stackRows [simp]: "length (stackRows n prev vs) = length vs"
  by (induction vs arbitrary: prev) (simp_all add: Let_def)

lemma stackRows_nth:
  "si < length vs \<Longrightarrow> i < n \<Longrightarrow>
   stackRows n prev vs ! si ! i = prev ! i + columnSum vs i (Suc si)"
proof (induction vs arbitrary: prev si)
  case Nil
  then show ?case by simp
next
  case (Cons v vs)
  show ?case
  proof (cases si)
    case 0
    then show ?thesis using Cons.prems by (simp add: Let_def columnSum_def)
  next
    case (Suc k)
    then have "k < length vs" using Cons.prems by simp
    from Cons.IH [OF this Cons.prems(2)] show ?thesis using Suc Cons.prems(2)
      by (simp add: Let_def columnSum_def)
  qed
qed

lemma length_stackRows_nth:
  "si < length vs \<Longrightarrow> length (stackRows n prev vs ! si) = n"
proof (induction vs arbitrary: prev si)
  case Nil
  then show ?case by simp
next
  case (Cons v vs)
  then show ?case by (cases si) (simp_all add: Let_def)
qed

lemma computeStacked_nth:
  assumes "si < length vals" and "i < length (hd vals)"
  shows "computeStacked vals ! si ! i = columnSum vals i (Suc si)"
proof -
  from assms(1) obtain v vs where v: "vals = v # vs" by (cases vals) simp_all
  then show ?thesis using assms stackRows_nth [of si vals i "length v" "replicate (length v) 0"]
    by (simp add: computeStacked_def numPoints_def Let_def)
qed

lemma valueOr0_nonneg: "\<forall>x\<in>set v. 0 \<le> x \<Longrightarrow> 0 \<le> valueOr0 v i"
  by (simp add: valueOr0_def)

lemma columnSum_Suc:
  "k < length vals \<Longrightarrow> columnSum vals i (Suc k) = columnSum vals i k + valueOr0 (vals ! k) i"
  by (simp add: columnSum_def take_Suc_conv_app_nth)

lemma columnSum_mono:
  assumes "\<forall>v\<in>set vals. \<forall>x\<in>set v. 0 \<le> x" and "j \<le> k" and "k \<le> length vals"
  shows "columnSum vals i j \<le> columnSum vals i k"
  using assms(2,3)
proof (induction k)
  case 0
  then show ?case by simp
next
  case (Suc k)
  show ?case
  proof (cases "j = Suc k")
    case True
    then show ?thesis by simp
  next
    case False
    then have "j \<le> k" using Suc.prems by simp
    moreover have "k < length vals" using Suc.prems by simp
    moreover have "0 \<le> valueOr0 (vals ! k) i"
      using assms(1) nth_mem [OF \<open>k < length vals\<close>] by (simp add: valueOr0_nonneg)
    ultimately show ?thesis using Suc.IH by (simp add: columnSum_Suc)
  qed
qed

lemma columnSum_0 [simp]: "columnSum vals i 0 = 0"
  by (simp add: columnSum_def)


lemma expanded_nth:
  assumes "si < length vals" and "i < numPoints vals"
  shows "computeStackedExpanded vals ! si ! i =
     (if 0 < columnSum vals i (length vals)
      then columnSum vals i (Suc si) / columnSum vals i (length vals) * 100 else 0)"
proof -
  from assms(1) obtain v vs where v: "vals = v # vs" by (cases vals) simp_all
  have n: "numPoints vals = length (hd vals)" using v by (simp add: numPoints_def)
  have len: "length (computeStacked vals) = length vals"
    by (simp add: computeStacked_def Let_def)
  have last: "length vals - 1 < length vals" using assms(1) by simp
  have S: "Suc (length vals - Suc 0) = length vals" using assms(1) by simp
  have tot: "computeStacked vals ! (length vals - 1) ! i = columnSum vals i (length vals)"
    using computeStacked_nth [OF last] assms n by (simp add: S)
  have cur: "computeStacked vals ! si ! i = columnSum vals i (Suc si)"
    using computeStacked_nth [OF assms(1)] assms(2) n by simp
  have "computeStackedExpanded vals ! si ! i =
      (let total = computeStacked vals ! (length vals - 1) ! i
       in if total > 0 then computeStacked vals ! si ! i / total * 100 else 0)"
    using assms len by (simp add: computeStackedExpanded_def Let_def)
  then show ?thesis using tot cur by (simp add: Let_def)
qed

text \<open>
  C10. For a value matrix whose entries are all nonnegative, \<open>computeStackedExpanded\<close>
  returns one row per series, each with one value per index of the first series; every
  value lies between 0 and 100; at every index the values do not decrease from one series
  to the next; where the column total is positive the last series has exactly 100, and
  where it is zero every series has 0.
\<close>

theorem stacked_expanded_invariant:
  assumes "\<forall>v\<in>set vals. \<forall>x\<in>set v. 0 \<le> x"
  shows "length (computeStackedExpanded vals) = length vals
       \<and> (\<forall>si<length vals. length (computeStackedExpanded vals ! si) = numPoints vals)
       \<and> (\<forall>si<length vals. \<forall>i<numPoints vals.
             0 \<le> computeStackedExpanded vals ! si ! i
           \<and> computeStackedExpanded vals ! si ! i \<le> 100
           \<and> (Suc si < length vals \<longrightarrow>
                computeStackedExpanded vals ! si ! i \<le> computeStackedExpanded vals ! Suc si ! i)
           \<and> (0 < columnSum vals i (length vals) \<longrightarrow>
                computeStackedExpanded vals ! (length vals - 1) ! i = 100)
           \<and> (columnSum vals i (length vals) = 0 \<longrightarrow>
                computeStackedExpanded vals ! si ! i = 0))"
proof -
  have len: "length (computeStackedExpanded vals) = length vals"
    by (simp add: computeStackedExpanded_def computeStacked_def Let_def)
  have rows: "length (computeStackedExpanded vals ! si) = numPoints vals" if "si < length vals" for si
    using that by (simp add: computeStackedExpanded_def computeStacked_def Let_def)
  have main: "0 \<le> computeStackedExpanded vals ! si ! i
           \<and> computeStackedExpanded vals ! si ! i \<le> 100
           \<and> (Suc si < length vals \<longrightarrow>
                computeStackedExpanded vals ! si ! i \<le> computeStackedExpanded vals ! Suc si ! i)
           \<and> (0 < columnSum vals i (length vals) \<longrightarrow>
                computeStackedExpanded vals ! (length vals - 1) ! i = 100)
           \<and> (columnSum vals i (length vals) = 0 \<longrightarrow>
                computeStackedExpanded vals ! si ! i = 0)"
    if si: "si < length vals" and i: "i < numPoints vals" for si i
  proof -
    let ?T = "columnSum vals i (length vals)"
    let ?C = "columnSum vals i (Suc si)"
    have c0: "0 \<le> ?C" using columnSum_mono [OF assms, of 0 "Suc si" i] si by simp
    have cT: "?C \<le> ?T" using columnSum_mono [OF assms, of "Suc si" "length vals" i] si by simp
    have e: "computeStackedExpanded vals ! si ! i = (if 0 < ?T then ?C / ?T * 100 else 0)"
      by (rule expanded_nth [OF si i])
    have lo: "0 \<le> computeStackedExpanded vals ! si ! i" using c0 cT by (simp add: e)
    have hi: "computeStackedExpanded vals ! si ! i \<le> 100"
      using c0 cT by (simp add: e divide_le_eq)
    have mono: "computeStackedExpanded vals ! si ! i \<le> computeStackedExpanded vals ! Suc si ! i"
      if "Suc si < length vals"
    proof -
      have "?C \<le> columnSum vals i (Suc (Suc si))"
        using columnSum_mono [OF assms, of "Suc si" "Suc (Suc si)" i] that by simp
      then show ?thesis using expanded_nth [OF that i] e c0
        by (simp add: divide_right_mono)
    qed
    have top: "computeStackedExpanded vals ! (length vals - 1) ! i = 100" if "0 < ?T"
    proof -
      have "length vals - 1 < length vals" using si by simp
      moreover have "Suc (length vals - Suc 0) = length vals" using si by simp
      ultimately show ?thesis using expanded_nth [of "length vals - 1" vals i] i that
        by simp
    qed
    have zero: "computeStackedExpanded vals ! si ! i = 0" if "?T = 0"
      using that by (simp add: e)
    from lo hi mono top zero show ?thesis by blast
  qed
  from len rows main show ?thesis by blast
qed

theorem stacked_expanded_invariant_witness:
  "0 \<le> computeStackedExpanded [[1, 2, 0], [3, 2, 0, 5], [4]] ! 0 ! 1
 \<and> computeStackedExpanded [[1, 2, 0], [3, 2, 0, 5], [4]] ! 0 ! 1 \<le> 100
 \<and> computeStackedExpanded [[1, 2, 0], [3, 2, 0, 5], [4]] ! 0 ! 1
     \<le> computeStackedExpanded [[1, 2, 0], [3, 2, 0, 5], [4]] ! 1 ! 1
 \<and> computeStackedExpanded [[1, 2, 0], [3, 2, 0, 5], [4]] ! 2 ! 1 = 100"
proof -
  let ?v = "[[1, 2, 0], [3, 2, 0, 5], [4 :: real]]"
  have nonneg: "\<forall>v\<in>set ?v. \<forall>x\<in>set v. 0 \<le> x" by simp
  have si: "0 < length ?v" and i: "1 < numPoints ?v" by (simp_all add: numPoints_def)
  have tot: "0 < columnSum ?v 1 (length ?v)" by (simp add: columnSum_def valueOr0_def)
  from stacked_expanded_invariant [OF nonneg, THEN conjunct2, THEN conjunct2, rule_format,
      OF si i] tot
  show ?thesis by (simp add: numeral_2_eq_2)
qed


section \<open>Properties of the hover index of the area chart\<close>

lemma hoverStep_alt:
  "hoverStep fl c mx (idx0, d0) k =
     (if Fin (pointDist fl c mx k) < d0 \<and> pointDist fl c mx k < hoverLimit fl c
      then (int k, Fin (pointDist fl c mx k)) else (idx0, d0))"
  by (simp add: hoverStep_def pointDist_def hoverLimit_def Let_def)

lemma hover_invariant:
  "foldl (hoverStep fl c mx) (- 1, PInf) [0..<k] = (idx, d) \<Longrightarrow>
     (idx = - 1 \<and> d = PInf \<and> (\<forall>i<k. \<not> pointDist fl c mx i < hoverLimit fl c))
   \<or> (\<exists>m<k. idx = int m \<and> d = Fin (pointDist fl c mx m) \<and> pointDist fl c mx m < hoverLimit fl c
          \<and> (\<forall>j<k. pointDist fl c mx m \<le> pointDist fl c mx j)
          \<and> (\<forall>j<m. pointDist fl c mx m < pointDist fl c mx j))"
proof (induction k arbitrary: idx d)
  case 0
  then show ?case by simp
next
  case (Suc k)
  obtain idx0 d0 where st: "foldl (hoverStep fl c mx) (- 1, PInf) [0..<k] = (idx0, d0)"
    by (cases "foldl (hoverStep fl c mx) (- 1, PInf) [0..<k]") auto
  from Suc.IH [OF st] have IH:
    "(idx0 = - 1 \<and> d0 = PInf \<and> (\<forall>i<k. \<not> pointDist fl c mx i < hoverLimit fl c))
   \<or> (\<exists>m<k. idx0 = int m \<and> d0 = Fin (pointDist fl c mx m) \<and> pointDist fl c mx m < hoverLimit fl c
          \<and> (\<forall>j<k. pointDist fl c mx m \<le> pointDist fl c mx j)
          \<and> (\<forall>j<m. pointDist fl c mx m < pointDist fl c mx j))" .
  have step: "(idx, d) = hoverStep fl c mx (idx0, d0) k"
    using Suc.prems st by simp
  from IH show ?case
  proof
    assume A: "idx0 = - 1 \<and> d0 = PInf \<and> (\<forall>i<k. \<not> pointDist fl c mx i < hoverLimit fl c)"
    show ?thesis
    proof (cases "pointDist fl c mx k < hoverLimit fl c")
      case True
      then have "idx = int k" "d = Fin (pointDist fl c mx k)"
        using step A by (simp_all add: hoverStep_alt)
      moreover have "\<forall>j<Suc k. pointDist fl c mx k \<le> pointDist fl c mx j"
        using A True by (auto simp add: less_Suc_eq)
      moreover have "\<forall>j<k. pointDist fl c mx k < pointDist fl c mx j"
        using A True by auto
      ultimately show ?thesis using True by blast
    next
      case False
      then have "idx = - 1" "d = PInf" using step A by (simp_all add: hoverStep_alt)
      then show ?thesis using A False by (auto simp add: less_Suc_eq)
    qed
  next
    assume "\<exists>m<k. idx0 = int m \<and> d0 = Fin (pointDist fl c mx m) \<and> pointDist fl c mx m < hoverLimit fl c
          \<and> (\<forall>j<k. pointDist fl c mx m \<le> pointDist fl c mx j)
          \<and> (\<forall>j<m. pointDist fl c mx m < pointDist fl c mx j)"
    then obtain m where m: "m < k" "idx0 = int m" "d0 = Fin (pointDist fl c mx m)"
      "pointDist fl c mx m < hoverLimit fl c" "\<forall>j<k. pointDist fl c mx m \<le> pointDist fl c mx j"
      "\<forall>j<m. pointDist fl c mx m < pointDist fl c mx j" by blast
    show ?thesis
    proof (cases "pointDist fl c mx k < pointDist fl c mx m")
      case True
      then have near: "pointDist fl c mx k < hoverLimit fl c" using m(4) by simp
      then have "idx = int k" "d = Fin (pointDist fl c mx k)"
        using step m True by (simp_all add: hoverStep_alt)
      moreover have "\<forall>j<Suc k. pointDist fl c mx k \<le> pointDist fl c mx j"
        using m(5) True by (auto simp add: less_Suc_eq)
      moreover have "\<forall>j<k. pointDist fl c mx k < pointDist fl c mx j"
        using m(5) True by fastforce
      ultimately show ?thesis using near by blast
    next
      case False
      then have "idx = int m" "d = Fin (pointDist fl c mx m)"
        using step m by (simp_all add: hoverStep_alt)
      moreover have "\<forall>j<Suc k. pointDist fl c mx m \<le> pointDist fl c mx j"
        using m(5) False by (auto simp add: less_Suc_eq)
      ultimately show ?thesis using m by (metis less_Suc_eq)
    qed
  qed
qed

text \<open>
  The evaluation of \<open>fl64\<close> at a numeral, and some of its values: the doubles written
  \<open>0.1\<close>, \<open>0.6\<close> and \<open>0.3\<close>, the sum \<open>0.1 + 0.2\<close> of the program, which is not the double
  \<open>0.3\<close>, and two ties above \<open>2^53\<close>.
\<close>

lemma binade_numeral:
  "binade (numeral k) a e =
     (if 2 \<le> a then binade (pred_numeral k) (a / 2) (e + 1)
      else if a < 1 then binade (pred_numeral k) (a * 2) (e - 1)
      else e)"
  by (simp add: numeral_eq_Suc)

lemmas fl64_eval = fl64_def pow2_def roundHalfEven_def binade_numeral Let_def

lemma fl64_values:
  "fl64 (1 / 10) = 3602879701896397 / 2 ^ 55"
  "fl64 (6 / 10) = 5404319552844595 / 2 ^ 53"
  "fl64 (fl64 (1 / 10) + fl64 (2 / 10)) = 5404319552844596 / 2 ^ 54"
  "fl64 (3 / 10) = 5404319552844595 / 2 ^ 54"
  "fl64 (2 ^ 53 + 1) = 2 ^ 53"
  "fl64 (2 ^ 53 + 3) = 2 ^ 53 + 4"
  "fl64 (- (1 / 3)) = - (6004799503160661 / 2 ^ 54)"
  "fl64 (fl64 (5 / 2)) = 5 / 2"
  by (simp_all add: fl64_eval)

lemmas hover_eval = findHoveredIndex_def hoverStep_def pointDist_def slotW_def toX_def
  plotW_def mLeft_def mRight_def upt_rec

text \<open>
  C8, as stated, fails twice. The acceptance window is 0.6 of a slot width, not half of
  one: with eleven points on a plot of width 100 (slot width 10, first point at x = 16)
  the pointer at x = 10.5 is at distance 5.5 from the first point, more than half a slot,
  and index 0 is returned, in the arithmetic of the program as in exact arithmetic. And
  the point returned is the nearest by the computed distances, not by the exact ones:
  with seven points on that plot and the pointer at the double nearest to 107 2/3, the
  computed distances from points 5 and 6 are equal and index 5 is returned, while point 6
  is the nearer one.
\<close>

theorem hover_index_counterexample:
  "findHoveredIndex fl64 \<lparr>showYAxis = False, dpr = 1, canvasWidth = 132, numLabels = 11\<rparr>
     (21 / 2) = 0
 \<and> slotW fl64 \<lparr>showYAxis = False, dpr = 1, canvasWidth = 132, numLabels = 11\<rparr> / 2
     < pointDist fl64 \<lparr>showYAxis = False, dpr = 1, canvasWidth = 132, numLabels = 11\<rparr>
         (21 / 2) 0
 \<and> findHoveredIndex (\<lambda>v. v) \<lparr>showYAxis = False, dpr = 1, canvasWidth = 132, numLabels = 11\<rparr>
     (21 / 2) = 0
 \<and> slotW (\<lambda>v. v) \<lparr>showYAxis = False, dpr = 1, canvasWidth = 132, numLabels = 11\<rparr> / 2
     < pointDist (\<lambda>v. v) \<lparr>showYAxis = False, dpr = 1, canvasWidth = 132, numLabels = 11\<rparr>
         (21 / 2) 0
 \<and> findHoveredIndex fl64 \<lparr>showYAxis = False, dpr = 1, canvasWidth = 132, numLabels = 7\<rparr>
     (7576368123128491 / 2 ^ 46) = 5
 \<and> pointDist (\<lambda>v. v) \<lparr>showYAxis = False, dpr = 1, canvasWidth = 132, numLabels = 7\<rparr>
     (7576368123128491 / 2 ^ 46) 6
     < pointDist (\<lambda>v. v) \<lparr>showYAxis = False, dpr = 1, canvasWidth = 132, numLabels = 7\<rparr>
         (7576368123128491 / 2 ^ 46) 5"
proof -
  have a: "findHoveredIndex fl64
      \<lparr>showYAxis = False, dpr = 1, canvasWidth = 132, numLabels = 11\<rparr> (21 / 2) = 0"
    by (simp add: hover_eval fl64_eval)
  have b: "slotW fl64 \<lparr>showYAxis = False, dpr = 1, canvasWidth = 132, numLabels = 11\<rparr> / 2
      < pointDist fl64 \<lparr>showYAxis = False, dpr = 1, canvasWidth = 132, numLabels = 11\<rparr>
          (21 / 2) 0"
    by (simp add: hover_eval fl64_eval)
  have c: "findHoveredIndex (\<lambda>v. v)
      \<lparr>showYAxis = False, dpr = 1, canvasWidth = 132, numLabels = 11\<rparr> (21 / 2) = 0"
    by (simp add: hover_eval)
  have d: "slotW (\<lambda>v. v) \<lparr>showYAxis = False, dpr = 1, canvasWidth = 132, numLabels = 11\<rparr> / 2
      < pointDist (\<lambda>v. v) \<lparr>showYAxis = False, dpr = 1, canvasWidth = 132, numLabels = 11\<rparr>
          (21 / 2) 0"
    by (simp add: hover_eval)
  have e: "findHoveredIndex fl64
      \<lparr>showYAxis = False, dpr = 1, canvasWidth = 132, numLabels = 7\<rparr>
      (7576368123128491 / 2 ^ 46) = 5"
    by (simp add: hover_eval fl64_eval)
  have f: "pointDist (\<lambda>v. v) \<lparr>showYAxis = False, dpr = 1, canvasWidth = 132, numLabels = 7\<rparr>
      (7576368123128491 / 2 ^ 46) 6
      < pointDist (\<lambda>v. v) \<lparr>showYAxis = False, dpr = 1, canvasWidth = 132, numLabels = 7\<rparr>
          (7576368123128491 / 2 ^ 46) 5"
    by (simp add: hover_eval)
  from a b c d e f show ?thesis by blast
qed

lemma nearest_up_to_rounding:
  fixes p q :: "nat \<Rightarrow> real"
  assumes "\<forall>i<n. \<bar>p i - q i\<bar> \<le> e" and "m < n" and "j < n" and "p m \<le> p j"
  shows "q m \<le> q j + 2 * e"
proof -
  have "\<bar>p m - q m\<bar> \<le> e" and "\<bar>p j - q j\<bar> \<le> e" using assms(1,2,3) by simp_all
  then show ?thesis using assms(4) by linarith
qed

text \<open>
  C8, amended. For a non-empty data set and whatever the rounding of the arithmetic, that
  of the program included, \<open>findHoveredIndex\<close> returns -1 exactly when no data point has a
  computed distance from the pointer below the computed \<open>slotW * 0.6\<close>; otherwise it
  returns the index of a data point whose computed distance is below that bound and is
  the least of all. When the computed distances are within \<open>e\<close> of the exact ones, the
  exact distance of the returned point exceeds that of no other point by more than
  \<open>2 * e\<close>. The exact distances are those from points spaced by one slot width from the
  left margin, \<open>16 * dpr\<close>, or \<open>50 * dpr\<close> with a y axis, and the exact bound is 0.6 of the
  slot width, which is the width of the plot over \<open>n - 1\<close>, or the width of the plot for
  a single point.
\<close>

theorem hover_index:
  fixes c :: AreaChart and fl :: "real \<Rightarrow> real" and mx :: real
  defines "margin \<equiv> (if showYAxis c then 50 else 16) * dpr c"
  defines "slot \<equiv> (canvasWidth c - margin - 16 * dpr c)
                    / real_of_int (max (int (numLabels c) - 1) 1)"
  assumes "0 < numLabels c"
  shows "(findHoveredIndex fl c mx = - 1
            \<longleftrightarrow> (\<forall>i<numLabels c. \<not> pointDist fl c mx i < hoverLimit fl c))
       \<and> (\<forall>m. findHoveredIndex fl c mx = int m \<longrightarrow>
            m < numLabels c \<and> pointDist fl c mx m < hoverLimit fl c
          \<and> (\<forall>j<numLabels c. pointDist fl c mx m \<le> pointDist fl c mx j))
       \<and> (findHoveredIndex fl c mx = - 1 \<or> (\<exists>m. findHoveredIndex fl c mx = int m))
       \<and> (\<forall>m e. findHoveredIndex fl c mx = int m
              \<and> (\<forall>i<numLabels c. \<bar>pointDist fl c mx i - pointDist (\<lambda>v. v) c mx i\<bar> \<le> e) \<longrightarrow>
              (\<forall>j<numLabels c.
                 pointDist (\<lambda>v. v) c mx m \<le> pointDist (\<lambda>v. v) c mx j + 2 * e))
       \<and> (\<forall>i. pointDist (\<lambda>v. v) c mx i = \<bar>mx * dpr c - (margin + real i * slot)\<bar>)
       \<and> hoverLimit (\<lambda>v. v) c = slot * 0.6"
proof -
  have sl: "slotW (\<lambda>v. v) c = slot"
    by (simp add: slotW_def slot_def margin_def plotW_def mLeft_def mRight_def)
  have pos: "pointDist (\<lambda>v. v) c mx i = \<bar>mx * dpr c - (margin + real i * slot)\<bar>" for i
    by (simp add: pointDist_def toX_def slot_def margin_def plotW_def mLeft_def mRight_def)
  have lim: "hoverLimit (\<lambda>v. v) c = slot * 0.6"
    by (simp add: hoverLimit_def sl)
  obtain idx d where st: "foldl (hoverStep fl c mx) (- 1, PInf) [0..<numLabels c] = (idx, d)"
    by (cases "foldl (hoverStep fl c mx) (- 1, PInf) [0..<numLabels c]") auto
  have r: "findHoveredIndex fl c mx = idx" using assms st by (simp add: findHoveredIndex_def)
  have a: "(idx = - 1 \<longleftrightarrow> (\<forall>i<numLabels c. \<not> pointDist fl c mx i < hoverLimit fl c))"
    using hover_invariant [OF st] by auto
  have b: "m < numLabels c \<and> pointDist fl c mx m < hoverLimit fl c
          \<and> (\<forall>j<numLabels c. pointDist fl c mx m \<le> pointDist fl c mx j)"
    if "idx = int m" for m
    using hover_invariant [OF st] that by auto
  have c: "idx = - 1 \<or> (\<exists>m. idx = int m)"
    using hover_invariant [OF st] by auto
  have d: "\<forall>j<numLabels c. pointDist (\<lambda>v. v) c mx m \<le> pointDist (\<lambda>v. v) c mx j + 2 * e"
    if "idx = int m
        \<and> (\<forall>i<numLabels c. \<bar>pointDist fl c mx i - pointDist (\<lambda>v. v) c mx i\<bar> \<le> e)" for m e
  proof (intro allI impI)
    fix j assume j: "j < numLabels c"
    from b [of m] that have m: "m < numLabels c"
      and le: "pointDist fl c mx m \<le> pointDist fl c mx j" using j by simp_all
    from that have close:
      "\<forall>i<numLabels c. \<bar>pointDist fl c mx i - pointDist (\<lambda>v. v) c mx i\<bar> \<le> e" by simp
    show "pointDist (\<lambda>v. v) c mx m \<le> pointDist (\<lambda>v. v) c mx j + 2 * e"
      by (rule nearest_up_to_rounding [OF close m j le])
  qed
  from a b c d pos lim show ?thesis unfolding r by blast
qed

theorem hover_index_witness:
  "findHoveredIndex fl64 \<lparr>showYAxis = False, dpr = 1, canvasWidth = 132, numLabels = 4\<rparr> 66 = 2
 \<and> pointDist fl64 \<lparr>showYAxis = False, dpr = 1, canvasWidth = 132, numLabels = 4\<rparr> 66 2
     < hoverLimit fl64 \<lparr>showYAxis = False, dpr = 1, canvasWidth = 132, numLabels = 4\<rparr>
 \<and> pointDist fl64 \<lparr>showYAxis = False, dpr = 1, canvasWidth = 132, numLabels = 4\<rparr> 66 2
     \<le> pointDist fl64 \<lparr>showYAxis = False, dpr = 1, canvasWidth = 132, numLabels = 4\<rparr> 66 1
 \<and> pointDist (\<lambda>v. v) \<lparr>showYAxis = False, dpr = 1, canvasWidth = 132, numLabels = 4\<rparr> 66 2
     \<le> pointDist (\<lambda>v. v) \<lparr>showYAxis = False, dpr = 1, canvasWidth = 132, numLabels = 4\<rparr> 66 1
         + 2 * (1 / 2 ^ 46)"
proof -
  let ?c = "\<lparr>showYAxis = False, dpr = 1, canvasWidth = 132, numLabels = 4\<rparr>"
  have n: "0 < numLabels ?c" by simp
  have r: "findHoveredIndex fl64 ?c 66 = int 2"
    by (simp add: hover_eval fl64_eval)
  have p0: "\<bar>pointDist fl64 ?c 66 0 - pointDist (\<lambda>v. v) ?c 66 0\<bar> \<le> 1 / 2 ^ 46"
    by (simp add: hover_eval fl64_eval)
  have p1: "\<bar>pointDist fl64 ?c 66 1 - pointDist (\<lambda>v. v) ?c 66 1\<bar> \<le> 1 / 2 ^ 46"
    by (simp add: hover_eval fl64_eval)
  have p2: "\<bar>pointDist fl64 ?c 66 2 - pointDist (\<lambda>v. v) ?c 66 2\<bar> \<le> 1 / 2 ^ 46"
    by (simp add: hover_eval fl64_eval)
  have p3: "\<bar>pointDist fl64 ?c 66 3 - pointDist (\<lambda>v. v) ?c 66 3\<bar> \<le> 1 / 2 ^ 46"
    by (simp add: hover_eval fl64_eval)
  have close: "\<forall>i<numLabels ?c. \<bar>pointDist fl64 ?c 66 i - pointDist (\<lambda>v. v) ?c 66 i\<bar> \<le> 1 / 2 ^ 46"
  proof (intro allI impI)
    fix i assume "i < numLabels ?c"
    then have "i = 0 \<or> i = 1 \<or> i = 2 \<or> i = 3" by auto
    with p0 p1 p2 p3
    show "\<bar>pointDist fl64 ?c 66 i - pointDist (\<lambda>v. v) ?c 66 i\<bar> \<le> 1 / 2 ^ 46" by blast
  qed
  note t = hover_index [OF n, where fl = fl64 and mx = 66]
  from t r have m: "pointDist fl64 ?c 66 2 < hoverLimit fl64 ?c
      \<and> (\<forall>j<numLabels ?c. pointDist fl64 ?c 66 2 \<le> pointDist fl64 ?c 66 j)"
    by blast
  from t r close
  have x: "\<forall>j<numLabels ?c.
      pointDist (\<lambda>v. v) ?c 66 2 \<le> pointDist (\<lambda>v. v) ?c 66 j + 2 * (1 / 2 ^ 46)"
    by blast
  from m have "pointDist fl64 ?c 66 2 \<le> pointDist fl64 ?c 66 1" by simp
  moreover from x
  have "pointDist (\<lambda>v. v) ?c 66 2 \<le> pointDist (\<lambda>v. v) ?c 66 1 + 2 * (1 / 2 ^ 46)" by simp
  ultimately show ?thesis using r m by simp
qed

section \<open>Properties of the theme resolver\<close>

lemma hexDigit_special:
  assumes "hexDigit d = Some v"
  shows "\<not> isWhite d" and "d \<noteq> CHR ''-''" and "d \<noteq> CHR ''+''" and "d \<noteq> CHR ''x''"
    and "d \<noteq> CHR ''X''" and "d \<noteq> CHR ''#''"
  using assms by (auto simp add: hexDigit_def isWhite_def)

lemma parseInt16_pair:
  assumes "hexDigit d1 = Some v1" and "hexDigit d2 = Some v2"
  shows "parseInt16 [d1, d2] = Some (int (16 * v1 + v2))"
  using assms hexDigit_special [OF assms(1)] hexDigit_special [OF assms(2)]
  by (simp add: parseInt16_def startsWith_def)

lemma hexLuminance_six:
  assumes "hexDigit d1 = Some v1" and "hexDigit d2 = Some v2" and "hexDigit d3 = Some v3"
    and "hexDigit d4 = Some v4" and "hexDigit d5 = Some v5" and "hexDigit d6 = Some v6"
  shows "hexLuminance (CHR ''#'' # d1 # d2 # d3 # d4 # d5 # d6 # rest) \<longleftrightarrow>
     150 < real ((16 * v1 + v2) * 299 + (16 * v3 + v4) * 587 + (16 * v5 + v6) * 114) / 1000"
proof -
  let ?hex = "d1 # d2 # d3 # d4 # d5 # d6 # rest"
  have s1: "substring ?hex 0 2 = [d1, d2]" and s2: "substring ?hex 2 4 = [d3, d4]"
    and s3: "substring ?hex 4 6 = [d5, d6]"
    by (simp_all add: substring_def numeral_2_eq_2 eval_nat_numeral)
  have hex: "remove1 (CHR ''#'') (CHR ''#'' # ?hex) = ?hex" by simp
  have "hexLuminance (CHR ''#'' # ?hex) \<longleftrightarrow>
      150 < real_of_int (int (16 * v1 + v2) * 299 + int (16 * v3 + v4) * 587
              + int (16 * v5 + v6) * 114) / 1000"
    unfolding hexLuminance_def hex Let_def s1 s2 s3
      parseInt16_pair [OF assms(1,2)] parseInt16_pair [OF assms(3,4)]
      parseInt16_pair [OF assms(5,6)]
    by (simp add: startsWith_def orZero_def)
  also have "real_of_int (int (16 * v1 + v2) * 299 + int (16 * v3 + v4) * 587
              + int (16 * v5 + v6) * 114)
      = real ((16 * v1 + v2) * 299 + (16 * v3 + v4) * 587 + (16 * v5 + v6) * 114)"
    by simp
  finally show ?thesis .
qed

lemma hexLuminance_white: "hexLuminance ''#FFFFFF''"
  by (simp add: hexLuminance_def startsWith_def substring_def parseInt16_def isWhite_def
      hexDigit_def orZero_def)

lemma hexLuminance_black: "\<not> hexLuminance ''#000000''"
  by (simp add: hexLuminance_def startsWith_def substring_def parseInt16_def isWhite_def
      hexDigit_def orZero_def)

lemma hexLuminance_short: "\<not> hexLuminance ''#FFF''"
  by (simp add: hexLuminance_def startsWith_def substring_def parseInt16_def isWhite_def
      hexDigit_def orZero_def)

lemma hexLuminance_rgb: "\<not> hexLuminance ''rgb(200,200,200)''"
  by (simp add: hexLuminance_def startsWith_def)

lemma parseLuminance_rgb: "parseLuminance ''rgb(200, 200, 200)''"
  by (simp add: parseLuminance_def matchHere_def decimal_def isDigit_def isWhite_def
      startsWith_def)

lemma isLightBg_explicit:
  "bg \<noteq> ''transparent'' \<or> el = None \<Longrightarrow> isLightBg bg el = hexLuminance bg"
  by (auto simp add: isLightBg_def split: option.splits)

text \<open>
  C9, as stated, fails for an explicit \<open>rgb\<close> string: \<open>rgb(200,200,200)\<close> has luminance
  200, above 150, and is classified dark, since an explicit background goes to
  \<open>hexLuminance\<close>, which answers \<open>false\<close> for a string that does not start with \<open>#\<close>.
\<close>

theorem theme_rgb_counterexample:
  "\<not> isLightBg ''rgb(200,200,200)'' None
 \<and> (150 :: real) < (200 * 299 + 200 * 587 + 200 * 114) / 1000"
  using hexLuminance_rgb by (simp add: isLightBg_def)

text \<open>
  C9, amended. For an explicit background (any string but \<open>transparent\<close>, or no ambient
  element) \<open>isLightBg\<close> is \<open>hexLuminance\<close>: a string that does not start with \<open>#\<close>,
  an \<open>rgb\<close> or \<open>rgba\<close> string included, is dark; a string that starts with \<open>#\<close> and six
  hexadecimal digits \<open>RRGGBB\<close> is light exactly when \<open>(299r + 587g + 114b) / 1000\<close>
  exceeds 150. \<open>#FFFFFF\<close> is light; \<open>#000000\<close> and \<open>rgb(200,200,200)\<close> are dark.
\<close>

theorem theme_luminance:
  "(bg \<noteq> ''transparent'' \<or> el = None \<longrightarrow> isLightBg bg el = hexLuminance bg)
 \<and> (\<not> startsWith bg (CHR ''#'') \<longrightarrow> \<not> hexLuminance bg)
 \<and> (hexDigit d1 = Some v1 \<and> hexDigit d2 = Some v2 \<and> hexDigit d3 = Some v3
      \<and> hexDigit d4 = Some v4 \<and> hexDigit d5 = Some v5 \<and> hexDigit d6 = Some v6 \<longrightarrow>
      (hexLuminance (CHR ''#'' # d1 # d2 # d3 # d4 # d5 # d6 # rest) \<longleftrightarrow>
         150 < real ((16 * v1 + v2) * 299 + (16 * v3 + v4) * 587 + (16 * v5 + v6) * 114)
               / 1000))
 \<and> isLightBg ''#FFFFFF'' el' \<and> \<not> isLightBg ''#000000'' el'
 \<and> \<not> isLightBg ''rgb(200,200,200)'' el'"
proof -
  have a: "\<not> hexLuminance bg" if "\<not> startsWith bg (CHR ''#'')"
    using that by (simp add: hexLuminance_def)
  have w: "isLightBg ''#FFFFFF'' el'"
    using isLightBg_explicit [of "''#FFFFFF''" el'] hexLuminance_white by simp
  have k: "\<not> isLightBg ''#000000'' el'"
    using isLightBg_explicit [of "''#000000''" el'] hexLuminance_black by simp
  have g: "\<not> isLightBg ''rgb(200,200,200)'' el'"
    using isLightBg_explicit [of "''rgb(200,200,200)''" el'] hexLuminance_rgb by simp
  from isLightBg_explicit [of bg el] a hexLuminance_six [of d1 v1 d2 v2 d3 v3 d4 v4 d5 v5 d6 v6 rest]
    w k g
  show ?thesis by blast
qed

theorem theme_luminance_witness:
  "isLightBg ''#969798'' None
 \<and> (150 :: real) < real ((16 * 9 + 6) * 299 + (16 * 9 + 7) * 587 + (16 * 9 + 8) * 114) / 1000"
proof -
  have d: "hexDigit (CHR ''9'') = Some 9 \<and> hexDigit (CHR ''6'') = Some 6
      \<and> hexDigit (CHR ''9'') = Some 9 \<and> hexDigit (CHR ''7'') = Some 7
      \<and> hexDigit (CHR ''9'') = Some 9 \<and> hexDigit (CHR ''8'') = Some 8"
    by (simp add: hexDigit_def)
  have e: "''#969798'' \<noteq> ''transparent'' \<or> (None :: string list option) = None" by simp
  from theme_luminance [of "''#969798''" None "CHR ''9''" 9 "CHR ''6''" 6 "CHR ''9''" 9
      "CHR ''7''" 7 "CHR ''9''" 9 "CHR ''8''" 8 "[]" None] d e
  show ?thesis by simp
qed


section \<open>Properties of the donut hit test\<close>







lemma length_sliceAnglesFrom [simp]: "length (sliceAnglesFrom a T vs) = length vs"
  by (induction vs arbitrary: a) (simp_all add: Let_def)













end
